theory Spec2Isabelle
  imports Main "HOL-Library.Monad_Syntax" "HOL-Library.Multiset"
begin

unbundle bit_operations_syntax

section \<open>BigInt arithmetic of the engine\<close>

text \<open>
  The engine computes on JavaScript \<open>bigint\<close> values: unbounded integers, modelled as
  \<open>int\<close>. JavaScript's \<open>%\<close> and \<open>/\<close> on \<open>bigint\<close> truncate towards zero (the remainder
  takes the sign of the dividend), unlike \<open>mod\<close> and \<open>div\<close> of HOL, which round towards
  minus infinity. Both raise a RangeError on a zero divisor. On the main thread every
  divisor is a non-zero constant or is guarded by the surrounding code (the modulus of
  \<open>power\<close> is the \<open>n \<ge> 5\<close> of \<open>isPrime\<close>, the sieve divides by basis primes, the deep loop
  divides by a factor it has compared with \<open>0n\<close>), so the raise is no branch there; in the
  worker the only divisor is the target \<open>n\<close>, and the handler catches the raise (see
  \<open>worker_onmessage\<close>).
\<close>

definition bigint_rem :: "int \<Rightarrow> int \<Rightarrow> int" where
  "bigint_rem a b = sgn a * (\<bar>a\<bar> mod \<bar>b\<bar>)"

definition bigint_div :: "int \<Rightarrow> int \<Rightarrow> int" where
  "bigint_div a b = sgn a * sgn b * (\<bar>a\<bar> div \<bar>b\<bar>)"

section \<open>PrimalityOracle: \<open>power\<close> and \<open>isPrime\<close>\<close>

text \<open>
  \<^verbatim>\<open>
  private power(base, exp, mod) {
      let res = 1n;
      base %= mod;
      while (exp > 0n) {
          if (exp % 2n === 1n) res = (res * base) % mod;
          base = (base * base) % mod;
          exp /= 2n;
      }
      return res;
  }
  \<close>
\<close>

function power_loop :: "int \<Rightarrow> int \<Rightarrow> int \<Rightarrow> int \<Rightarrow> int" where
  "power_loop res base exp md =
     (if exp > 0
      then power_loop (if bigint_rem exp 2 = 1 then bigint_rem (res * base) md else res)
             (bigint_rem (base * base) md) (bigint_div exp 2) md
      else res)"
  by pat_completeness auto
termination
  by (relation "measure (\<lambda>(res, base, exp, md). nat exp)")
     (auto simp: bigint_div_def)

declare power_loop.simps [simp del]

definition power_js :: "int \<Rightarrow> int \<Rightarrow> int \<Rightarrow> int" where
  "power_js base exp md = power_loop 1 (bigint_rem base md) exp md"

text \<open>
  The loop \<^verbatim>\<open>while (d % 2n === 0n) { d /= 2n; s++; }\<close> of \<open>isPrime\<close>. At \<open>d = 0\<close> it
  would never end, so it is a partial function: \<open>None\<close> is "does not return".
\<close>

partial_function (option) split_even :: "int \<Rightarrow> int \<Rightarrow> (int \<times> int) option" where
  "split_even d s =
     (if bigint_rem d 2 = 0 then split_even (bigint_div d 2) (s + 1) else Some (d, s))"

declare split_even.simps [code]

text \<open>
  The inner loop \<^verbatim>\<open>for (let r = 1n; r < s; r++) { x = power(x, 2n, n); if (x === n - 1n)
  { composite = false; break; } }\<close>; the result is the flag \<open>composite\<close>.
\<close>

function square_loop :: "int \<Rightarrow> int \<Rightarrow> int \<Rightarrow> int \<Rightarrow> bool" where
  "square_loop n s r x =
     (if r < s
      then (let x' = power_js x 2 n in
            if x' = n - 1 then False else square_loop n s (r + 1) x')
      else True)"
  by pat_completeness auto
termination
  by (relation "measure (\<lambda>(n, s, r, x). nat (s - r))") auto

declare square_loop.simps [simp del]

text \<open>The loop over the witness bases; \<open>break\<close> and falling off the end both return true.\<close>

fun bases_loop :: "int \<Rightarrow> int \<Rightarrow> int \<Rightarrow> int list \<Rightarrow> bool" where
  "bases_loop n d s [] = True"
| "bases_loop n d s (a # as) =
     (if n \<le> a then True
      else (let x = power_js a d n in
            if x = 1 \<or> x = n - 1 then bases_loop n d s as
            else if square_loop n s 1 x then False
            else bases_loop n d s as))"

text \<open>
  \<open>isPrime\<close>, with the list \<open>bases\<close> as a parameter: the two revisions of the engine
  under \<^verbatim>\<open>src/unnamed\<close> differ in it only.
\<close>

definition isPrime :: "int list \<Rightarrow> int \<Rightarrow> bool option" where
  "isPrime bases n =
     (if n < 2 then Some False
      else if n = 2 \<or> n = 3 then Some True
      else if bigint_rem n 2 = 0 then Some False
      else do {
        (d, s) \<leftarrow> split_even (n - 1) 0;
        Some (bases_loop n d s bases)
      })"

definition bases_003 :: "int list" where
  "bases_003 = [2, 3, 5, 7, 11, 13, 17, 19, 23, 29, 31, 37]"

definition bases_002 :: "int list" where
  "bases_002 = [2, 3, 5, 7, 11, 13, 17, 19, 23, 29, 31, 37, 41, 43, 47]"

section \<open>RhoSearchLane: the worker kernel\<close>

subsection \<open>Binary gcd\<close>

text \<open>
  \<^verbatim>\<open>
  const gcd = (a, b) => {
      if (a === 0n) return b;
      if (b === 0n) return a;
      let shift = 0n;
      while (((a | b) & 1n) === 0n) { a >>= 1n; b >>= 1n; shift++; }
      while ((a & 1n) === 0n) a >>= 1n;
      while (b !== 0n) {
          while ((b & 1n) === 0n) b >>= 1n;
          if (a > b) { const t = b; b = a; a = t; }
          b -= a;
      }
      return a << shift;
  };
  \<close>
  On \<open>bigint\<close>, \<open>>>\<close> is the arithmetic shift (\<open>drop_bit\<close> on \<open>int\<close>). None of the three
  loops ends on every pair of integers (the last one runs away on a negative argument),
  so each is a partial function.
\<close>

partial_function (option) gcd_shift :: "int \<Rightarrow> int \<Rightarrow> int \<Rightarrow> (int \<times> int \<times> int) option" where
  "gcd_shift a b shift =
     (if (a OR b) AND 1 = 0 then gcd_shift (drop_bit 1 a) (drop_bit 1 b) (shift + 1)
      else Some (a, b, shift))"

declare gcd_shift.simps [code]

partial_function (option) gcd_odd :: "int \<Rightarrow> int option" where
  "gcd_odd a = (if a AND 1 = 0 then gcd_odd (drop_bit 1 a) else Some a)"

declare gcd_odd.simps [code]

partial_function (option) gcd_sub :: "int \<Rightarrow> int \<Rightarrow> int option" where
  "gcd_sub a b =
     (if b \<noteq> 0
      then do {
        b1 \<leftarrow> gcd_odd b;
        (if a > b1 then gcd_sub b1 (a - b1) else gcd_sub a (b1 - a))
      }
      else Some a)"

declare gcd_sub.simps [code]

definition gcd_js :: "int \<Rightarrow> int \<Rightarrow> int option" where
  "gcd_js a b =
     (if a = 0 then Some b
      else if b = 0 then Some a
      else do {
        (a1, b1, shift) \<leftarrow> gcd_shift a b 0;
        a2 \<leftarrow> gcd_odd a1;
        a3 \<leftarrow> gcd_sub a2 b1;
        Some (push_bit (nat shift) a3)
      })"

subsection \<open>Brent's rho, revision \<^verbatim>\<open>part_003\<close> (\<open>solveRawBrent\<close>)\<close>

text \<open>The polynomial step \<^verbatim>\<open>y = (y * y + c) % n\<close>.\<close>

definition rho_f :: "int \<Rightarrow> int \<Rightarrow> int \<Rightarrow> int" where
  "rho_f c n v = bigint_rem (v * v + c) n"

text \<open>
  Phase 1, unrolled four times: \<^verbatim>\<open>for (let i = 0; i < rSteps; i += 4) { y = f(y); y = f(y);
  y = f(y); y = f(y); }\<close> and \<^verbatim>\<open>for (let i = 0; i < rMod4; i++) y = f(y);\<close>
\<close>

function advance4 :: "int \<Rightarrow> int \<Rightarrow> int \<Rightarrow> int \<Rightarrow> int \<Rightarrow> int" where
  "advance4 c n i rSteps y =
     (if i < rSteps
      then advance4 c n (i + 4) rSteps (rho_f c n (rho_f c n (rho_f c n (rho_f c n y))))
      else y)"
  by pat_completeness auto
termination
  by (relation "measure (\<lambda>(c, n, i, rSteps, y). nat (rSteps - i))") auto

declare advance4.simps [simp del]

function advance1 :: "int \<Rightarrow> int \<Rightarrow> int \<Rightarrow> int \<Rightarrow> int \<Rightarrow> int" where
  "advance1 c n i bound y =
     (if i < bound then advance1 c n (i + 1) bound (rho_f c n y) else y)"
  by pat_completeness auto
termination
  by (relation "measure (\<lambda>(c, n, i, bound, y). nat (bound - i))") auto

declare advance1.simps [simp del]

text \<open>
  One step of phase 2: \<^verbatim>\<open>y = (y * y + c) % n; diff = x > y ? x - y : y - x;
  q = (q * diff) % n;\<close> on the pair \<open>(y, q)\<close>.
\<close>

definition batch_step :: "int \<Rightarrow> int \<Rightarrow> int \<Rightarrow> int \<times> int \<Rightarrow> int \<times> int" where
  "batch_step c n x = (\<lambda>(y, q).
     let y' = rho_f c n y;
         diff = (if x > y' then x - y' else y' - x)
     in (y', bigint_rem (q * diff) n))"

text \<open>
  The unrolled block \<^verbatim>\<open>for (; j < limitSteps; j += 4)\<close> and the remainder
  \<^verbatim>\<open>for (; j < limit; j++)\<close>; both thread the counter \<open>j\<close>.
\<close>

function batch4 :: "int \<Rightarrow> int \<Rightarrow> int \<Rightarrow> int \<Rightarrow> int \<Rightarrow> int \<times> int \<Rightarrow> int \<times> int \<times> int" where
  "batch4 c n x j limitSteps yq =
     (if j < limitSteps
      then batch4 c n x (j + 4) limitSteps
             (batch_step c n x (batch_step c n x (batch_step c n x (batch_step c n x yq))))
      else (j, yq))"
  by pat_completeness auto
termination
  by (relation "measure (\<lambda>(c, n, x, j, limitSteps, yq). nat (limitSteps - j))") auto

declare batch4.simps [simp del]

function batch1 :: "int \<Rightarrow> int \<Rightarrow> int \<Rightarrow> int \<Rightarrow> int \<Rightarrow> int \<times> int \<Rightarrow> int \<times> int" where
  "batch1 c n x j limit yq =
     (if j < limit then batch1 c n x (j + 1) limit (batch_step c n x yq) else yq)"
  by pat_completeness auto
termination
  by (relation "measure (\<lambda>(c, n, x, j, limit, yq). nat (limit - j))") auto

declare batch1.simps [simp del]

text \<open>
  The inner loop \<^verbatim>\<open>while (k < r && g === 1n)\<close> on the variables \<open>(y, q, g, k, xs, ys)\<close>; it
  reads \<open>x\<close> (the parameter \<open>tortoise\<close>) and the batch size \<open>m\<close>, which is \<open>1000n\<close>.
  \<open>Number(condition)\<close> is exact: \<open>condition \<le> m\<close>.
\<close>

partial_function (option) batch_while ::
  "int \<Rightarrow> int \<Rightarrow> int \<Rightarrow> int \<Rightarrow> int \<Rightarrow> int \<times> int \<times> int \<times> int \<times> int \<times> int
     \<Rightarrow> (int \<times> int \<times> int \<times> int \<times> int \<times> int) option" where
  "batch_while c n m tortoise r st =
     (case st of (y, q, g, k, xs, ys) \<Rightarrow>
        if k < r \<and> g = 1
        then (let ys' = y; xs' = tortoise;
                  condition = (if r - k < m then r - k else m);
                  limit = condition;
                  limitMod4 = limit AND 3;
                  limitSteps = limit - limitMod4;
                  (j, yq) = batch4 c n tortoise 0 limitSteps (y, 1);
                  (y', q') = batch1 c n tortoise j limit yq
              in do {
                g' \<leftarrow> gcd_js q' n;
                batch_while c n m tortoise r (y', q', g', k + limit, xs', ys')
              })
        else Some st)"

declare batch_while.simps [code]

text \<open>
  The outer loop \<^verbatim>\<open>while (g === 1n && steps < STEPS_LIMIT)\<close> on
  \<open>(x, y, g, r, q, xs, ys, steps)\<close>. \<open>Number(r)\<close> is exact: \<open>steps\<close> is \<open>r - 1\<close> at the head of
  the loop, so \<open>r\<close> stays below \<open>2 ^ 26\<close>.
\<close>

definition STEPS_LIMIT :: int where
  "STEPS_LIMIT = 50000000"

partial_function (option) brent_while ::
  "int \<Rightarrow> int \<Rightarrow> int \<times> int \<times> int \<times> int \<times> int \<times> int \<times> int \<times> int
     \<Rightarrow> (int \<times> int \<times> int \<times> int \<times> int \<times> int \<times> int \<times> int) option" where
  "brent_while c n st =
     (case st of (x, y, g, r, q, xs, ys, steps) \<Rightarrow>
        if g = 1 \<and> steps < STEPS_LIMIT
        then (let x' = y;
                  rNum = r;
                  rMod4 = rNum AND 3;
                  rSteps = rNum - rMod4;
                  y1 = advance4 c n 0 rSteps y;
                  y2 = advance1 c n 0 rMod4 y1;
                  steps' = steps + rNum
              in do {
                (y3, q', g', k, xs', ys') \<leftarrow> batch_while c n 1000 x' r (y2, q, g, 0, xs, ys);
                brent_while c n (x', y3, g', push_bit 1 r, q', xs', ys', steps')
              })
        else Some st)"

declare brent_while.simps [code]

text \<open>
  The backtracking loop \<^verbatim>\<open>while (true) { ys = (ys * ys + c) % n; diff = xs > ys ? xs - ys :
  ys - xs; g = gcd(diff, n); if (g > 1n) break; }\<close>
\<close>

partial_function (option) backtrack :: "int \<Rightarrow> int \<Rightarrow> int \<Rightarrow> int \<Rightarrow> int option" where
  "backtrack c n xs ys =
     (let ys' = rho_f c n ys;
          diff = (if xs > ys' then xs - ys' else ys' - xs)
      in do {
        g \<leftarrow> gcd_js diff n;
        (if g > 1 then Some g else backtrack c n xs ys')
      })"

declare backtrack.simps [code]

definition solveRawBrent :: "int \<Rightarrow> int \<Rightarrow> int \<Rightarrow> int option" where
  "solveRawBrent n constantC startY =
     (let c = constantC; y = startY; x = y
      in do {
        (x', y', g, r, q, xs, ys, steps) \<leftarrow> brent_while c n (x, y, 1, 1, 1, x, y, 0);
        (if g = n then backtrack c n xs ys else Some g)
      })"

text \<open>
  The message a lane receives and its handler. The reply is \<open>Some (Some f)\<close> for
  \<^verbatim>\<open>postMessage({ factor: f.toString() })\<close>, \<open>Some None\<close> for \<^verbatim>\<open>postMessage({ factor: null })\<close>
  and \<open>None\<close> when the handler never posts. The fields are the integers whose decimal
  strings the coordinator sends. With \<open>n = 0\<close> the first \<^verbatim>\<open>% n\<close> raises a RangeError, which
  the handler's \<^verbatim>\<open>catch\<close> turns into the null reply.
\<close>

record lane_msg =
  nStr :: int
  startC :: int
  seedVal :: int
  workerId :: nat

definition worker_onmessage :: "lane_msg \<Rightarrow> int option option" where
  "worker_onmessage e =
     (let n = nStr e in
      if n = 0 then Some None
      else do {
        factor \<leftarrow> solveRawBrent n (startC e) (seedVal e);
        factor' \<leftarrow> (if factor = 1 \<or> factor = n
                     then solveRawBrent n (startC e + 3) (seedVal e)
                     else Some factor);
        Some (if factor' > 1 \<and> factor' < n then Some factor' else None)
      })"

subsection \<open>Brent's rho, revision \<^verbatim>\<open>part_002\<close>\<close>

text \<open>
  The kernel of revision \<^verbatim>\<open>part_002\<close> has the same \<open>gcd\<close> and polynomial step. It is not
  unrolled, its batch size \<open>m\<close> is \<open>128n\<close>, it never resets \<open>q\<close>, it counts the steps of
  phase 2 only, and it backtracks from \<open>x\<close>. The inner loop, on \<open>(y, q, g, k, ys, steps)\<close>:
  \<^verbatim>\<open>
  while (k < r && g === 1n) {
      ys = y;
      let conditionLimit = (r - k) < m ? (r - k) : m;
      let limit = Number(conditionLimit);
      for (let j = 0; j < limit; j++) { y = f(y); let diff = x > y ? x - y : y - x; q = (q * diff) % n; }
      g = gcd(q, n);
      k += BigInt(limit);
      steps += limit;
  }
  \<close>
\<close>

partial_function (option) batch_while_002 ::
  "int \<Rightarrow> int \<Rightarrow> int \<Rightarrow> int \<Rightarrow> int \<Rightarrow> int \<times> int \<times> int \<times> int \<times> int \<times> int
     \<Rightarrow> (int \<times> int \<times> int \<times> int \<times> int \<times> int) option" where
  "batch_while_002 c n m tortoise r st =
     (case st of (y, q, g, k, ys, steps) \<Rightarrow>
        if k < r \<and> g = 1
        then (let ys' = y;
                  conditionLimit = (if r - k < m then r - k else m);
                  limit = conditionLimit;
                  (y', q') = batch1 c n tortoise 0 limit (y, q)
              in do {
                g' \<leftarrow> gcd_js q' n;
                batch_while_002 c n m tortoise r (y', q', g', k + limit, ys', steps + limit)
              })
        else Some st)"

declare batch_while_002.simps [code]

text \<open>
  The outer loop \<^verbatim>\<open>while (g === 1n && steps < stepLimit) { x = y; for (let j = 0; j < r; j++)
  y = f(y); let k = 0n; ...; r *= 2n; }\<close> on \<open>(x, y, g, r, q, ys, steps)\<close>.
\<close>

definition stepLimit :: int where
  "stepLimit = 20000000"

partial_function (option) brent_while_002 ::
  "int \<Rightarrow> int \<Rightarrow> int \<times> int \<times> int \<times> int \<times> int \<times> int \<times> int
     \<Rightarrow> (int \<times> int \<times> int \<times> int \<times> int \<times> int \<times> int) option" where
  "brent_while_002 c n st =
     (case st of (x, y, g, r, q, ys, steps) \<Rightarrow>
        if g = 1 \<and> steps < stepLimit
        then (let x' = y;
                  y1 = advance1 c n 0 r y
              in do {
                (y2, q', g', k, ys', steps') \<leftarrow>
                  batch_while_002 c n 128 x' r (y1, q, g, 0, ys, steps);
                brent_while_002 c n (x', y2, g', r * 2, q', ys', steps')
              })
        else Some st)"

declare brent_while_002.simps [code]

text \<open>
  The loop over the column of \<open>A1\<close> that the lane was sent,
  \<^verbatim>\<open>for (let i = 0; i < columnData.length; i++)\<close>: the first \<open>c\<close> that gives a proper divisor
  posts it and returns; when none does, the lane posts null. An entry that is \<^verbatim>\<open>undefined\<close>
  (a row of \<open>A1\<close> shorter than the column index) makes \<open>BigInt\<close> raise, and the handler's
  \<^verbatim>\<open>catch\<close> posts null.
\<close>

fun column_loop :: "int \<Rightarrow> int \<Rightarrow> int \<Rightarrow> int option list \<Rightarrow> int option option" where
  "column_loop n seed i [] = Some None"
| "column_loop n seed i (None # columnData) = Some None"
| "column_loop n seed i (Some c # columnData) =
     (let y = seed + i
      in do {
        (x, y', g, r, q, ys, steps) \<leftarrow> brent_while_002 c n (y, y, 1, 1, 1, y, 0);
        g' \<leftarrow> (if g = n then backtrack c n x ys else Some g);
        (if g' > 1 \<and> g' < n then Some (Some g') else column_loop n seed (i + 1) columnData)
      })"

record lane_msg_002 =
  nStr_002 :: int
  columnData :: "int option list"
  seedVal_002 :: int

definition worker_onmessage_002 :: "lane_msg_002 \<Rightarrow> int option option" where
  "worker_onmessage_002 e =
     (let n = nStr_002 e in
      if n = 0 then Some None
      else column_loop n (seedVal_002 e) 0 (columnData e))"

section \<open>ParallelRhoCoordinator: \<open>findFactorParallel\<close>\<close>

text \<open>
  What one coordinator round takes from outside the program: the number of logical cores
  (\<open>0\<close> when \<^verbatim>\<open>navigator.hardwareConcurrency\<close> is undefined or zero), the draws
  \<^verbatim>\<open>Math.floor(Math.random() * 1000)\<close> of revision \<^verbatim>\<open>part_002\<close> (one per lane), and the order
  in which the lanes' replies reach the coordinator before the timer fires. A lane that
  is slower than the timer, or whose handler never posts, is not in \<open>arrivals\<close>.
\<close>

record round_env =
  hardwareConcurrency :: nat
  random1000 :: "nat \<Rightarrow> nat"
  arrivals :: "nat list"

text \<open>
  The promise and the two variables the handlers share. \<open>settled\<close> is the value of the
  promise: the first \<^verbatim>\<open>resolve\<close> sets it, a later one changes nothing.
\<close>

record coord =
  resolved :: bool
  activeWorkers :: int
  settled :: "int option"

definition resolve :: "int \<Rightarrow> coord \<Rightarrow> coord" where
  "resolve v st = (case settled st of None \<Rightarrow> st\<lparr>settled := Some v\<rparr> | Some w \<Rightarrow> st)"

text \<open>
  \<^verbatim>\<open>
  worker.onmessage = (e) => {
      if (resolved) return;
      const { factor } = e.data;
      if (factor) {
          const f = BigInt(factor);
          if (f !== n && f !== 1n) { resolved = true; cleanup(); resolve(f); return; }
      }
      activeWorkers--;
      if (activeWorkers === 0 && !resolved) resolve(0n);
  };
  \<close>
  \<open>factor\<close> is \<open>null\<close> or the decimal string of a \<open>bigint\<close>, never the empty string.
\<close>

definition onmessage :: "int \<Rightarrow> int option \<Rightarrow> coord \<Rightarrow> coord" where
  "onmessage n factor st =
     (if resolved st then st
      else if (case factor of Some f \<Rightarrow> f \<noteq> n \<and> f \<noteq> 1 | None \<Rightarrow> False)
      then resolve (the factor) (st\<lparr>resolved := True\<rparr>)
      else (let st' = st\<lparr>activeWorkers := activeWorkers st - 1\<rparr>
            in if activeWorkers st' = 0 \<and> \<not> resolved st' then resolve 0 st' else st'))"

text \<open>\<^verbatim>\<open>setTimeout(() => { if (!resolved) { resolved = true; cleanup(); resolve(0n); } }, ...)\<close>\<close>

definition ontimeout :: "coord \<Rightarrow> coord" where
  "ontimeout st = (if \<not> resolved st then resolve 0 (st\<lparr>resolved := True\<rparr>) else st)"

datatype error = TypeError

text \<open>
  The two revisions differ in the witness bases, the sieve basis, the least number of
  lanes (which is also the default for an unknown core count) and in what a lane is sent
  and runs. \<open>eng_lane env n i\<close> is the reply of lane \<open>i\<close> on the target \<open>n\<close>, or the error
  that launching it raises in the coordinator.
\<close>

record engine =
  eng_bases :: "int list"
  eng_smallBasis :: "int list"
  eng_minLanes :: nat
  eng_lane :: "round_env \<Rightarrow> int \<Rightarrow> nat \<Rightarrow> error + int option option"

definition workerCount :: "engine \<Rightarrow> round_env \<Rightarrow> nat" where
  "workerCount eng env =
     (let logicalCores = (if hardwareConcurrency env = 0 then eng_minLanes eng
                          else hardwareConcurrency env)
      in max (eng_minLanes eng) logicalCores)"

text \<open>
  The launch loop \<^verbatim>\<open>for (let i = 0; i < workerCount; i++)\<close>: an exception in it rejects the
  promise; otherwise every lane has a reply (or none, for a handler that never posts).
\<close>

fun launch :: "(nat \<Rightarrow> error + int option option) \<Rightarrow> nat list
    \<Rightarrow> error + (nat \<Rightarrow> int option option)" where
  "launch lane [] = Inr (\<lambda>i. None)"
| "launch lane (i # is) =
     (case lane i of
        Inl e \<Rightarrow> Inl e
      | Inr reply \<Rightarrow>
          (case launch lane is of
             Inl e \<Rightarrow> Inl e
           | Inr replies \<Rightarrow> Inr (replies(i := reply))))"

text \<open>
  The replies are handled in the order of \<open>arrivals\<close>; a lane posts once, so an index that
  is no lane, or comes a second time, or belongs to a handler that never posts, is no
  event. The timer fires after them.
\<close>

definition events :: "nat \<Rightarrow> nat list \<Rightarrow> nat list" where
  "events lanes arriving = rev (remdups (rev (filter (\<lambda>i. i < lanes) arriving)))"

definition deliver :: "int \<Rightarrow> (nat \<Rightarrow> int option option) \<Rightarrow> coord \<Rightarrow> nat \<Rightarrow> coord" where
  "deliver n replies st i = (case replies i of None \<Rightarrow> st | Some factor \<Rightarrow> onmessage n factor st)"

definition findFactorParallel :: "engine \<Rightarrow> round_env \<Rightarrow> int \<Rightarrow> (error + int) option" where
  "findFactorParallel eng env n =
     (if bigint_rem n 2 = 0 then Some (Inr 2)
      else do {
        p \<leftarrow> isPrime (eng_bases eng) n;
        (if p then Some (Inr n)
         else (let count = workerCount eng env in
               case launch (eng_lane eng env n) [0..<count] of
                 Inl e \<Rightarrow> Some (Inl e)
               | Inr replies \<Rightarrow>
                   (let st0 = \<lparr>resolved = False, activeWorkers = int count, settled = None\<rparr>;
                        st = ontimeout (foldl (deliver n replies) st0
                               (events count (arrivals env)))
                    in map_option Inr (settled st))))
      })"

section \<open>FactorizationEngine: \<open>factorizeAsync\<close>\<close>

text \<open>
  The sieve: \<^verbatim>\<open>while (temp % p === 0n) { factors.push(p); temp /= p; }\<close> for each \<open>p\<close> of the
  basis. At \<open>temp = 0\<close> the loop would never end.
\<close>

partial_function (option) strip_prime :: "int \<Rightarrow> int list \<Rightarrow> int \<Rightarrow> (int list \<times> int) option" where
  "strip_prime p factors temp =
     (if bigint_rem temp p = 0 then strip_prime p (factors @ [p]) (bigint_div temp p)
      else Some (factors, temp))"

declare strip_prime.simps [code]

fun sieve_basis :: "int list \<Rightarrow> int list \<Rightarrow> int \<Rightarrow> (int list \<times> int) option" where
  "sieve_basis [] factors temp = Some (factors, temp)"
| "sieve_basis (p # ps) factors temp =
     do { (factors', temp') \<leftarrow> strip_prime p factors temp; sieve_basis ps factors' temp' }"

text \<open>\<^verbatim>\<open>for (let num of queue) { ...; if (temp > 1n) nextQueue.push(temp); }\<close>\<close>

fun sieve_queue :: "int list \<Rightarrow> int list \<Rightarrow> int list \<Rightarrow> int list
    \<Rightarrow> (int list \<times> int list) option" where
  "sieve_queue basis [] factors nextQueue = Some (factors, nextQueue)"
| "sieve_queue basis (num # queue) factors nextQueue =
     do {
       (factors', temp) \<leftarrow> sieve_basis basis factors num;
       sieve_queue basis queue factors' (if temp > 1 then nextQueue @ [temp] else nextQueue)
     }"

text \<open>
  The deep-processing loop \<^verbatim>\<open>while (queue.length > 0)\<close>. \<open>queue.pop()\<close> takes the last
  element. \<open>rounds k\<close> is the environment of the \<open>k\<close>-th call of the coordinator. A rejected
  promise ends \<open>factorizeAsync\<close> with the error.
\<close>

partial_function (option) deep_loop ::
  "engine \<Rightarrow> (nat \<Rightarrow> round_env) \<Rightarrow> nat \<Rightarrow> int list \<Rightarrow> int list \<Rightarrow> (error + int list) option" where
  "deep_loop eng rounds k factors queue =
     (if queue \<noteq> []
      then (let current = last queue; queue' = butlast queue
            in do {
              p \<leftarrow> isPrime (eng_bases eng) current;
              (if p then deep_loop eng rounds k (factors @ [current]) queue'
               else do {
                 res \<leftarrow> findFactorParallel eng (rounds k) current;
                 (case res of
                    Inl e \<Rightarrow> Some (Inl e)
                  | Inr factor \<Rightarrow>
                      if factor = 0 \<or> factor = current
                      then deep_loop eng rounds (k + 1) (factors @ [current]) queue'
                      else deep_loop eng rounds (k + 1) factors
                             (queue' @ [factor, bigint_div current factor]))
               })
            })
      else Some (Inr factors))"

declare deep_loop.simps [code]

definition factorizeAsync :: "engine \<Rightarrow> (nat \<Rightarrow> round_env) \<Rightarrow> int \<Rightarrow> (error + int list) option" where
  "factorizeAsync eng rounds nVal =
     (if nVal < 1 then Some (Inr [])
      else if nVal = 1 then Some (Inr [1])
      else do {
        (factors, queue) \<leftarrow> sieve_queue (eng_smallBasis eng) [nVal] [] [];
        res \<leftarrow> deep_loop eng rounds 0 factors queue;
        Some (map_sum id sort res)
      })"

subsection \<open>Revision \<^verbatim>\<open>part_003\<close>\<close>

text \<open>
  Modelled from the spec: the matrix constant \<open>A1\<close> of \<^verbatim>\<open>../constants\<close> is not under
  \<^verbatim>\<open>src/\<close>; it is a parameter, a matrix of integers (a comment of revision \<^verbatim>\<open>part_002\<close> gives
  its shape, 19 rows of 6). \<open>flatA1\<close> is \<^verbatim>\<open>A1.flat()\<close>. On an empty \<open>flatA1\<close> the lanes from
  the fourth on read \<^verbatim>\<open>undefined\<close>, and \<^verbatim>\<open>startC.toString()\<close> raises a TypeError.
\<close>

definition lane_params_003 :: "int list \<Rightarrow> nat \<Rightarrow> error + int \<times> int" where
  "lane_params_003 flatA1 i =
     (if i = 0 then Inr (1, 2)
      else if i = 1 then Inr (3, 5)
      else if i = 2 then Inr (5, 7)
      else if flatA1 = [] then Inl TypeError
      else Inr (flatA1 ! (i mod length flatA1),
                flatA1 ! ((i * 3) mod length flatA1) + int i))"

definition lane_003 :: "int list list \<Rightarrow> round_env \<Rightarrow> int \<Rightarrow> nat \<Rightarrow> error + int option option" where
  "lane_003 A1 env n i =
     (case lane_params_003 (concat A1) i of
        Inl e \<Rightarrow> Inl e
      | Inr (c, seed) \<Rightarrow>
          Inr (worker_onmessage \<lparr>nStr = n, startC = c, seedVal = seed, workerId = i\<rparr>))"

definition engine_003 :: "int list list \<Rightarrow> engine" where
  "engine_003 A1 =
     \<lparr>eng_bases = bases_003,
      eng_smallBasis = [2, 3, 5, 7, 11, 13, 17, 19, 23],
      eng_minLanes = 4,
      eng_lane = lane_003 A1\<rparr>"

subsection \<open>Revision \<^verbatim>\<open>part_002\<close>\<close>

text \<open>
  \<^verbatim>\<open>this.A1_columns = Array.from({ length: 6 }, (_, colIndex) => A1.map(row => row[colIndex]))\<close>;
  lane \<open>i\<close> is sent column \<open>i % 6\<close> and the seed
  \<^verbatim>\<open>Math.floor(Math.random() * 1000) + 2 + i * 100\<close>.
\<close>

definition A1_column :: "int list list \<Rightarrow> nat \<Rightarrow> int option list" where
  "A1_column A1 colIndex =
     map (\<lambda>row. if colIndex < length row then Some (row ! colIndex) else None) A1"

definition lane_002 :: "int list list \<Rightarrow> round_env \<Rightarrow> int \<Rightarrow> nat \<Rightarrow> error + int option option" where
  "lane_002 A1 env n i =
     (let columnIndex = i mod 6;
          seed = int (random1000 env i mod 1000) + 2 + int i * 100
      in Inr (worker_onmessage_002
            \<lparr>nStr_002 = n, columnData = A1_column A1 columnIndex, seedVal_002 = seed\<rparr>))"

definition engine_002 :: "int list list \<Rightarrow> engine" where
  "engine_002 A1 =
     \<lparr>eng_bases = bases_002,
      eng_smallBasis = [2, 3, 5, 7, 11, 13, 17, 19, 23, 29, 31, 37],
      eng_minLanes = 6,
      eng_lane = lane_002 A1\<rparr>"

subsection \<open>A sample matrix and sample rounds\<close>

text \<open>
  Concrete values of what the program takes from outside, for running it: a small integer
  matrix in the place of \<open>A1\<close>, a round in which the lanes \<open>2\<close>, \<open>0\<close>, \<open>1\<close> and \<open>3\<close> reply in
  this order before the timer, and a round in which the timer fires before any reply.
\<close>

definition sample_A1 :: "int list list" where
  "sample_A1 = [[1, 2, 3, 4, 5, 6], [7, 8, 9, 10, 11, 12]]"

definition no_draw :: "nat \<Rightarrow> nat" where
  "no_draw i = 0"

definition sample_round :: round_env where
  "sample_round = \<lparr>hardwareConcurrency = 0, random1000 = no_draw, arrivals = [2, 0, 1, 3]\<rparr>"

definition late_round :: round_env where
  "late_round = \<lparr>hardwareConcurrency = 0, random1000 = no_draw, arrivals = []\<rparr>"

definition sample_rounds :: "nat \<Rightarrow> round_env" where
  "sample_rounds k = sample_round"

definition late_rounds :: "nat \<Rightarrow> round_env" where
  "late_rounds k = late_round"

text \<open>
  An engine whose sieve would never return (its basis is \<open>[1]\<close>) and whose lanes cannot
  be launched: whatever it returns, it returns without the sieve and the lanes.
\<close>

definition stuck_lane :: "round_env \<Rightarrow> int \<Rightarrow> nat \<Rightarrow> error + int option option" where
  "stuck_lane env n i = Inl TypeError"

definition stuck_engine :: engine where
  "stuck_engine = \<lparr>eng_bases = [], eng_smallBasis = [1], eng_minLanes = 0, eng_lane = stuck_lane\<rparr>"

subsection \<open>A composite number that passes \<open>isPrime\<close>\<close>


















subsection \<open>What the two revisions share\<close>

text \<open>
  \<open>lanes_sound\<close>: a factor that a lane posts is a proper divisor of its target.
  \<open>lanes_launch\<close>: launching a lane raises no error.
\<close>

definition lanes_sound :: "engine \<Rightarrow> bool" where
  "lanes_sound eng \<longleftrightarrow>
     (\<forall>env n i g. eng_lane eng env n i = Inr (Some (Some g)) \<longrightarrow> 1 < g \<and> g < n \<and> g dvd n)"

definition lanes_launch :: "engine \<Rightarrow> bool" where
  "lanes_launch eng \<longleftrightarrow> (\<forall>env n i. \<exists>reply. eng_lane eng env n i = Inr reply)"

text \<open>
  The value of the promise is \<open>0\<close> or a factor that some lane posted and the handler let
  through; once the timer has fired the promise is settled.
\<close>

definition promise_ok :: "int \<Rightarrow> (nat \<Rightarrow> int option option) \<Rightarrow> coord \<Rightarrow> bool" where
  "promise_ok n replies st \<longleftrightarrow>
     (case settled st of
        None \<Rightarrow> \<not> resolved st
      | Some v \<Rightarrow> v = 0 \<or> (\<exists>i. replies i = Some (Some v) \<and> v \<noteq> n \<and> v \<noteq> 1))"

subsection \<open>The Miller-Rabin contract in the words of the specification\<close>

text \<open>
  The contract in the words of the specification: a witness \<open>a\<close> fails for \<open>n\<close>, where
  \<open>n - 1 = d * 2 ^ s\<close>, when \<open>a ^ d mod n\<close> is neither \<open>1\<close> nor \<open>n - 1\<close> and squaring it up to
  \<open>s - 1\<close> times never gives \<open>n - 1\<close>.
\<close>

definition witness_fails :: "int \<Rightarrow> int \<Rightarrow> nat \<Rightarrow> int \<Rightarrow> bool" where
  "witness_fails n d s a \<longleftrightarrow>
     a ^ nat d mod n \<noteq> 1 \<and> a ^ nat d mod n \<noteq> n - 1 \<and>
     (\<forall>r\<in>{1..<s}. ((\<lambda>v. v * v mod n) ^^ r) (a ^ nat d mod n) \<noteq> n - 1)"

section \<open>Properties of the arithmetic\<close>

lemma bigint_rem_nonneg: "0 \<le> a \<Longrightarrow> 0 < b \<Longrightarrow> bigint_rem a b = a mod b"
  by (simp add: bigint_rem_def sgn_if)

lemma bigint_div_nonneg: "0 \<le> a \<Longrightarrow> 0 < b \<Longrightarrow> bigint_div a b = a div b"
  by (simp add: bigint_div_def sgn_if)

subsection \<open>The binary gcd computes the gcd\<close>

lemma and_one_zero_iff: "(a::int) AND 1 = 0 \<longleftrightarrow> even a"
  by (simp add: and_one_eq even_iff_mod_2_eq_zero)

lemma or_and_one_zero_iff: "((a::int) OR b) AND 1 = 0 \<longleftrightarrow> even a \<and> even b"
  by (simp add: and_one_zero_iff even_or_iff)

lemma drop_bit_one_int: "drop_bit (Suc 0) (a::int) = a div 2"
  by (simp add: drop_bit_Suc)

lemma gcd_odd_pos:
  "0 < a \<Longrightarrow> \<exists>r k. gcd_odd a = Some r \<and> odd r \<and> 0 < r \<and> a = r * 2 ^ k"
proof (induction "nat a" arbitrary: a rule: less_induct)
  case less
  show ?case
  proof (cases "even a")
    case True
    with less.prems have "nat (a div 2) < nat a" "0 < a div 2" by (auto elim!: evenE)
    from less.hyps[OF this] obtain r k where
      r: "gcd_odd (a div 2) = Some r" "odd r" "0 < r" "a div 2 = r * 2 ^ k" by blast
    from True r(4) have "a = r * 2 ^ Suc k" by auto
    moreover have "gcd_odd a = Some r"
      using True r(1) by (subst gcd_odd.simps) (simp add: and_one_zero_iff drop_bit_one_int)
    ultimately show ?thesis using r(2,3) by blast
  next
    case False
    then have "gcd_odd a = Some a"
      by (subst gcd_odd.simps) (simp add: and_one_zero_iff)
    moreover have "a = a * 2 ^ 0" by simp
    ultimately show ?thesis using False less.prems by blast
  qed
qed

lemma gcd_odd_part:
  assumes "odd b"
  shows "gcd (r * 2 ^ k) b = gcd r (b::int)"
proof -
  have "coprime b (2 ^ k)" using assms by (simp add: coprime_right_2_iff_odd)
  then show ?thesis by (simp add: gcd_mult_left_right_cancel)
qed

lemma gcd_shift_pos:
  "0 < a \<Longrightarrow> 0 < b \<Longrightarrow>
   \<exists>a' b' k. gcd_shift a b s = Some (a', b', s + int k) \<and> 0 < a' \<and> 0 < b' \<and>
      (odd a' \<or> odd b') \<and> a = a' * 2 ^ k \<and> b = b' * 2 ^ k"
proof (induction "nat a" arbitrary: a b s rule: less_induct)
  case less
  show ?case
  proof (cases "even a \<and> even b")
    case True
    with less.prems have "nat (a div 2) < nat a" "0 < a div 2" "0 < b div 2" by (auto elim!: evenE)
    from less.hyps[OF this, of "s + 1"] obtain a' b' k where
      r: "gcd_shift (a div 2) (b div 2) (s + 1) = Some (a', b', s + 1 + int k)" 
         "0 < a'" "0 < b'" "odd a' \<or> odd b'" "a div 2 = a' * 2 ^ k" "b div 2 = b' * 2 ^ k" by blast
    from True r(5,6) have "a = a' * 2 ^ Suc k" "b = b' * 2 ^ Suc k" by auto
    moreover have "gcd_shift a b s = Some (a', b', s + int (Suc k))"
      using True r(1) by (subst gcd_shift.simps) (simp add: or_and_one_zero_iff drop_bit_one_int add.assoc)
    ultimately show ?thesis using r(2,3,4) by blast
  next
    case False
    then have "gcd_shift a b s = Some (a, b, s + int 0)"
      by (subst gcd_shift.simps) (auto simp add: or_and_one_zero_iff)
    moreover have "a = a * 2 ^ 0" "b = b * 2 ^ 0" by simp_all
    ultimately show ?thesis using False less.prems by blast
  qed
qed

lemma gcd_sub_correct:
  "0 < a \<Longrightarrow> odd a \<Longrightarrow> 0 \<le> b \<Longrightarrow> gcd_sub a b = Some (gcd a b)"
proof (induction "nat (a + b)" arbitrary: a b rule: less_induct)
  case less
  show ?case
  proof (cases "b = 0")
    case True
    then show ?thesis using less.prems by (subst gcd_sub.simps) simp
  next
    case False
    with less.prems have bpos: "0 < b" by simp
    from gcd_odd_pos[OF bpos] obtain r k where
      r: "gcd_odd b = Some r" "odd r" "0 < r" "b = r * 2 ^ k" by blast
    have rb: "r \<le> b" using r(3,4) by (simp add: mult_le_cancel_left1)
    have g: "gcd a b = gcd a r"
      using gcd_odd_part[OF less.prems(2), of r k] r(4) by (simp add: gcd.commute)
    show ?thesis
    proof (cases "a > r")
      case True
      have "gcd_sub r (a - r) = Some (gcd r (a - r))"
        using True r(2,3) bpos less.prems by (intro less.hyps) auto
      moreover have "gcd r (a - r) = gcd a r"
        by (metis gcd.commute gcd_diff1)
      ultimately show ?thesis using False r(1) True g
        by (subst gcd_sub.simps) simp
    next
      case False
      have "gcd_sub a (r - a) = Some (gcd a (r - a))"
        using False r(2,3) rb bpos less.prems by (intro less.hyps) auto
      moreover have "gcd a (r - a) = gcd a r"
        by (metis add_0 diff_minus_eq_add gcd_add2 gcd_neg2_int minus_diff_eq)
      ultimately show ?thesis using \<open>b \<noteq> 0\<close> r(1) False g
        by (subst gcd_sub.simps) simp
    qed
  qed
qed

lemma gcd_js_correct:
  assumes "0 \<le> a" "0 \<le> b"
  shows "gcd_js a b = Some (gcd a b)"
proof (cases "a = 0 \<or> b = 0")
  case True
  then show ?thesis using assms by (auto simp: gcd_js_def)
next
  case False
  with assms have pos: "0 < a" "0 < b" by auto
  from gcd_shift_pos[OF pos, of 0] obtain a' b' k where
    sh: "gcd_shift a b 0 = Some (a', b', int k)" "0 < a'" "0 < b'" "odd a' \<or> odd b'"
        "a = a' * 2 ^ k" "b = b' * 2 ^ k" by auto
  from gcd_odd_pos[OF sh(2)] obtain r j where
    od: "gcd_odd a' = Some r" "odd r" "0 < r" "a' = r * 2 ^ j" by blast
  have sub: "gcd_sub r b' = Some (gcd r b')"
    using od(2,3) sh(3) by (intro gcd_sub_correct) auto
  have "gcd r b' = gcd a' b'"
  proof (cases "odd b'")
    case True
    then show ?thesis using gcd_odd_part[of b' r j] od(4) by simp
  next
    case False
    with sh(4) have "odd a'" by simp
    with od(4) have "j = 0" by (cases j) auto
    with od(4) show ?thesis by simp
  qed
  moreover have "gcd a b = gcd a' b' * 2 ^ k"
    unfolding sh(5,6) by (simp add: gcd_mult_right gcd.commute abs_mult)
  ultimately show ?thesis
    using False sh(1) od(1) sub by (simp add: gcd_js_def push_bit_eq_mult)
qed

subsection \<open>\<open>power\<close> is modular exponentiation\<close>

lemma power_loop_correct:
  "0 \<le> exp \<Longrightarrow> 0 < md \<Longrightarrow> 0 \<le> res \<Longrightarrow> 0 \<le> base \<Longrightarrow>
   power_loop res base exp md mod md = res * base ^ nat exp mod md \<and>
   0 \<le> power_loop res base exp md \<and> (res < md \<longrightarrow> power_loop res base exp md < md)"
proof (induction res base exp md rule: power_loop.induct)
  case (1 res base exp md)
  show ?case
  proof (cases "exp > 0")
    case False
    with 1(2-) show ?thesis by (subst (1 2 3) power_loop.simps) simp
  next
    case True
    define res' where "res' = (if bigint_rem exp 2 = 1 then bigint_rem (res * base) md else res)"
    define base' where "base' = bigint_rem (base * base) md"
    have e2: "bigint_div exp 2 = exp div 2" "bigint_rem exp 2 = exp mod 2"
      using True by (simp_all add: bigint_div_nonneg bigint_rem_nonneg)
    have res': "res' = (if odd exp then res * base mod md else res)" "0 \<le> res'"
      "res < md \<longrightarrow> res' < md"
      using 1(2-) by (auto simp: res'_def e2 bigint_rem_nonneg odd_iff_mod_2_eq_one)
    have base': "base' = base * base mod md" "0 \<le> base'"
      using 1(2-) by (simp_all add: base'_def bigint_rem_nonneg)
    have unf: "power_loop res base exp md = power_loop res' base' (exp div 2) md"
      using True by (subst power_loop.simps) (simp add: res'_def base'_def e2)
    have IH: "power_loop res' base' (exp div 2) md mod md = res' * base' ^ nat (exp div 2) mod md \<and>
        0 \<le> power_loop res' base' (exp div 2) md \<and>
        (res' < md \<longrightarrow> power_loop res' base' (exp div 2) md < md)"
      using 1(1)[OF True] True 1(2-) res'(2) base'(2)
      by (simp add: res'_def base'_def e2)
    have "res' * base' ^ nat (exp div 2) mod md = res * base ^ nat exp mod md"
    proof -
      have "base' ^ nat (exp div 2) mod md = (base * base) ^ nat (exp div 2) mod md"
        unfolding base'(1) by (simp add: power_mod)
      also have "(base * base) ^ nat (exp div 2) = base ^ (2 * nat (exp div 2))"
        by (simp add: power_mult power2_eq_square)
      finally have b: "base' ^ nat (exp div 2) mod md = base ^ (2 * nat (exp div 2)) mod md" .
      have c: "res' * base' ^ nat (exp div 2) mod md = res' * base ^ (2 * nat (exp div 2)) mod md"
        by (metis b mod_mult_right_eq)
      show ?thesis
      proof (cases "odd exp")
        case True
        then have e: "nat exp = Suc (2 * nat (exp div 2))"
          using \<open>exp > 0\<close> by (auto elim!: oddE simp: nat_add_distrib nat_mult_distrib)
        have "res' * base ^ (2 * nat (exp div 2)) mod md
            = res * base * base ^ (2 * nat (exp div 2)) mod md"
          using True by (simp add: res'(1) mod_mult_left_eq)
        with c show ?thesis by (simp add: e mult.assoc)
      next
        case False
        then have e: "nat exp = 2 * nat (exp div 2)"
          using \<open>exp > 0\<close> by (auto elim!: evenE simp: nat_mult_distrib)
        from False c show ?thesis using e by (simp add: res'(1))
      qed
    qed
    with IH unf res'(3) show ?thesis by simp
  qed
qed

lemma power_js_correct:
  assumes "0 \<le> b" "0 \<le> e" "1 < md"
  shows "power_js b e md = b ^ nat e mod md"
proof -
  have md: "0 < md" "(1::int) < md" using assms by simp_all
  have b: "0 \<le> bigint_rem b md" "bigint_rem b md = b mod md"
    using assms by (simp_all add: bigint_rem_nonneg)
  from power_loop_correct[OF assms(2) md(1) _ b(1), of 1] md(2)
  have "power_loop 1 (bigint_rem b md) e md mod md = (bigint_rem b md) ^ nat e mod md"
    and "0 \<le> power_loop 1 (bigint_rem b md) e md" and "power_loop 1 (bigint_rem b md) e md < md"
    by simp_all
  then have "power_loop 1 (bigint_rem b md) e md = (b mod md) ^ nat e mod md"
    by (simp add: b(2))
  then show ?thesis by (simp add: power_js_def power_mod)
qed

section \<open>Properties of the primality oracle\<close>

subsection \<open>The primality oracle always returns\<close>

lemma split_even_pos:
  "0 < d \<Longrightarrow> \<exists>d' k. split_even d s = Some (d', s + int k) \<and> odd d' \<and> 0 < d' \<and> d = d' * 2 ^ k"
proof (induction "nat d" arbitrary: d s rule: less_induct)
  case less
  show ?case
  proof (cases "even d")
    case True
    with less.prems have "nat (d div 2) < nat d" "0 < d div 2" by (auto elim!: evenE)
    from less.hyps[OF this, of "s + 1"] obtain d' k where
      r: "split_even (d div 2) (s + 1) = Some (d', s + 1 + int k)" "odd d'" "0 < d'"
         "d div 2 = d' * 2 ^ k" by blast
    from True r(4) have "d = d' * 2 ^ Suc k" by auto
    moreover have "split_even d s = Some (d', s + int (Suc k))"
      using True r(1) less.prems
      by (subst split_even.simps) (simp add: bigint_rem_nonneg bigint_div_nonneg add.assoc)
    ultimately show ?thesis using r(2,3) by blast
  next
    case False
    then have "d mod 2 \<noteq> 0" by presburger
    then have "split_even d s = Some (d, s + int 0)"
      using less.prems by (subst split_even.simps) (simp add: bigint_rem_nonneg)
    moreover have "d = d * 2 ^ 0" by simp
    ultimately show ?thesis using False less.prems by blast
  qed
qed

lemma isPrime_total: "\<exists>p. isPrime bs n = Some p"
proof (cases "n < 2 \<or> n = 2 \<or> n = 3 \<or> bigint_rem n 2 = 0")
  case True
  then show ?thesis by (auto simp: isPrime_def)
next
  case False
  then have "0 < n - 1" by simp
  from split_even_pos[OF this, of 0] obtain d' k where
    "split_even (n - 1) 0 = Some (d', int k)" by auto
  with False show ?thesis by (simp add: isPrime_def)
qed

subsection \<open>The Miller-Rabin contract of \<open>isPrime\<close>\<close>

lemma ball_Suc_interval:
  "(\<forall>j\<in>{1..Suc N}. P j) \<longleftrightarrow> P 1 \<and> (\<forall>i\<in>{1..N}. P (Suc i))"
proof (intro iffI conjI ballI)
  fix j
  assume h: "P 1 \<and> (\<forall>i\<in>{1..N}. P (Suc i))" and j: "j \<in> {1..Suc N}"
  show "P j"
  proof (cases "j = 1")
    case True
    with h show ?thesis by simp
  next
    case False
    with j have "j - 1 \<in> {1..N}" "j = Suc (j - 1)" by auto
    with h show ?thesis by metis
  qed
qed auto

lemma square_loop_spec:
  "0 \<le> x \<Longrightarrow> 1 < n \<Longrightarrow>
   square_loop n s r x = (\<forall>j\<in>{1..nat (s - r)}. ((\<lambda>v. v * v mod n) ^^ j) x \<noteq> n - 1)"
proof (induction n s r x rule: square_loop.induct)
  case (1 n s r x)
  show ?case
  proof (cases "r < s")
    case False
    then show ?thesis by (subst square_loop.simps) simp
  next
    case True
    define x' where "x' = power_js x 2 n"
    have x': "x' = x * x mod n" "0 \<le> x'"
      using 1(2,3) by (simp_all add: x'_def power_js_correct power2_eq_square)
    have N: "nat (s - r) = Suc (nat (s - (r + 1)))" using True by simp
    have unf: "square_loop n s r x = (if x' = n - 1 then False else square_loop n s (r + 1) x')"
      using True by (subst square_loop.simps) (simp add: x'_def Let_def)
    show ?thesis
    proof (cases "x' = n - 1")
      case True
      then show ?thesis unfolding unf N ball_Suc_interval by (simp add: x'(1))
    next
      case False
      from 1(1)[OF True x'_def False x'(2) 1(3)] False
      show ?thesis unfolding unf N ball_Suc_interval
        by (simp add: x'(1) funpow_Suc_right del: funpow.simps)
    qed
  qed
qed

lemma bases_loop_spec:
  assumes "\<forall>a\<in>set bs. 0 \<le> a" "3 < n" "0 \<le> d"
  shows "bases_loop n d (int s) bs =
    (\<forall>a\<in>set (takeWhile (\<lambda>a. a < n) bs). \<not> witness_fails n d s a)"
  using assms(1)
proof (induction bs)
  case Nil
  then show ?case by simp
next
  case (Cons a bs)
  show ?case
  proof (cases "n \<le> a")
    case True
    then show ?thesis by simp
  next
    case False
    have a: "0 \<le> a" using Cons.prems by simp
    have p: "power_js a d n = a ^ nat d mod n"
      using a assms(2,3) by (simp add: power_js_correct)
    have x: "0 \<le> a ^ nat d mod n" using assms(2) by simp
    have sq: "square_loop n (int s) 1 (a ^ nat d mod n) =
        (\<forall>r\<in>{1..<s}. ((\<lambda>v. v * v mod n) ^^ r) (a ^ nat d mod n) \<noteq> n - 1)"
    proof -
      have "{1..nat (int s - 1)} = {1..<s}" by auto
      with square_loop_spec[OF x, of n "int s" 1] assms(2) show ?thesis by simp
    qed
    have IH: "bases_loop n d (int s) bs =
        (\<forall>a\<in>set (takeWhile (\<lambda>a. a < n) bs). \<not> witness_fails n d s a)"
      using Cons by simp
    show ?thesis
      using False by (auto simp: p sq IH Let_def witness_fails_def)
  qed
qed

lemma isPrime_odd:
  assumes "3 < n" "odd n"
  shows "\<exists>d s. split_even (n - 1) 0 = Some (d, int s) \<and> odd d \<and> 0 < d \<and> n - 1 = d * 2 ^ s
           \<and> isPrime bs n = Some (bases_loop n d (int s) bs)"
proof -
  from assms have "0 < n - 1" by simp
  from split_even_pos[OF this, of 0] obtain d k where
    d: "split_even (n - 1) 0 = Some (d, int k)" "odd d" "0 < d" "n - 1 = d * 2 ^ k" by auto
  have "n mod 2 \<noteq> 0" using assms(2) by presburger
  then have "isPrime bs n = Some (bases_loop n d (int k) bs)"
    using assms d(1) by (simp add: isPrime_def bigint_rem_nonneg)
  with d show ?thesis by blast
qed

lemma odd_part_unique:
  fixes d d' :: int
  assumes "d * 2 ^ s = d' * 2 ^ s'" "odd d" "odd d'"
  shows "d = d' \<and> s = s'"
proof -
  have aux: "s = s' \<and> d = d'"
    if eq: "d * 2 ^ s = d' * 2 ^ s'" and od: "odd d" and le: "s \<le> s'"
    for d d' :: int and s s' :: nat
  proof -
    from le obtain k where k: "s' = s + k" by (auto simp: le_iff_add)
    with eq have "d * 2 ^ s = (d' * 2 ^ k) * 2 ^ s" by (simp add: power_add mult.assoc mult.commute)
    then have "d = d' * 2 ^ k" by simp
    with od have "k = 0" by (cases k) auto
    with k \<open>d = d' * 2 ^ k\<close> show ?thesis by simp
  qed
  show ?thesis
  proof (cases "s \<le> s'")
    case True
    from aux[OF assms(1,2) True] show ?thesis by simp
  next
    case False
    then have "s' \<le> s" by simp
    from aux[OF assms(1)[symmetric] assms(3) this] show ?thesis by simp
  qed
qed

lemma isPrime_miller_rabin:
  assumes bs: "\<forall>a\<in>set bs. 0 \<le> a" and h: "3 < n" "odd n" "odd d" "n - 1 = d * 2 ^ s"
  shows "isPrime bs n =
    Some (\<forall>a\<in>set (takeWhile (\<lambda>a. a < n) bs). \<not> witness_fails n d s a)"
proof -
  from isPrime_odd[OF h(1,2), of bs] obtain d' s' where
    d': "odd d'" "0 < d'" "n - 1 = d' * 2 ^ s'"
    "isPrime bs n = Some (bases_loop n d' (int s') bs)" by blast
  from odd_part_unique[of d s d' s'] h(3,4) d'(1,3) have "d = d'" "s = s'" by simp_all
  with d'(2,4) bases_loop_spec[OF bs h(1), of d s] show ?thesis by simp
qed

text \<open>
  C3. \<open>isPrime\<close> of either revision returns false below \<open>2\<close>, true on \<open>2\<close> and \<open>3\<close>, false on
  an even number above \<open>3\<close>; on an odd \<open>n > 3\<close>, written \<open>n - 1 = d * 2 ^ s\<close> with \<open>d\<close> odd, it
  returns true exactly when no witness fails among the bases taken in order until the
  first one that is not below \<open>n\<close>. The bases start with the first twelve primes.
\<close>

theorem isPrime_contract:
  assumes "bs = bases_003 \<or> bs = bases_002"
  shows "take 12 bs = [2, 3, 5, 7, 11, 13, 17, 19, 23, 29, 31, 37] \<and>
    (n < 2 \<longrightarrow> isPrime bs n = Some False) \<and>
    (n = 2 \<or> n = 3 \<longrightarrow> isPrime bs n = Some True) \<and>
    (3 < n \<and> even n \<longrightarrow> isPrime bs n = Some False) \<and>
    (3 < n \<and> odd n \<longrightarrow> (\<exists>d s. odd d \<and> n - 1 = d * 2 ^ s)) \<and>
    (3 < n \<and> odd n \<and> odd d \<and> n - 1 = d * 2 ^ s \<longrightarrow>
       isPrime bs n =
         Some (\<forall>a\<in>set (takeWhile (\<lambda>a. a < n) bs). \<not> witness_fails n d s a))"
proof -
  have bs: "\<forall>a\<in>set bs. 0 \<le> a" and tk: "take 12 bs = [2, 3, 5, 7, 11, 13, 17, 19, 23, 29, 31, 37]"
    using assms by (auto simp: bases_003_def bases_002_def)
  have small: "n < 2 \<longrightarrow> isPrime bs n = Some False"
    "n = 2 \<or> n = 3 \<longrightarrow> isPrime bs n = Some True"
    by (auto simp: isPrime_def)
  have ev: "3 < n \<and> even n \<longrightarrow> isPrime bs n = Some False"
    by (auto simp: isPrime_def bigint_rem_nonneg)
  have ex: "3 < n \<and> odd n \<longrightarrow> (\<exists>d s. odd d \<and> n - 1 = d * 2 ^ s)"
    using isPrime_odd[of n bs] by blast
  have main: "isPrime bs n =
      Some (\<forall>a\<in>set (takeWhile (\<lambda>a. a < n) bs). \<not> witness_fails n d s a)"
    if h: "3 < n" "odd n" "odd d" "n - 1 = d * 2 ^ s"
    using isPrime_miller_rabin[OF bs h] .
  from tk small ev ex main show ?thesis by blast
qed

theorem isPrime_contract_witness:
  "isPrime bases_003 25 = Some False \<and> witness_fails 25 3 3 2"
proof -
  have f: "witness_fails 25 3 3 2"
    by (simp add: witness_fails_def atLeastLessThan_upt upt_rec numeral_2_eq_2 numeral_3_eq_3)
  have "(25::int) - 1 = 3 * 2 ^ 3" by simp
  with isPrime_contract[of bases_003 25 3 3]
  have "isPrime bases_003 25 =
      Some (\<forall>a\<in>set (takeWhile (\<lambda>a. a < 25) bases_003). \<not> witness_fails 25 3 3 a)"
    by simp
  moreover have "2 \<in> set (takeWhile (\<lambda>a. a < 25) bases_003)"
    by (simp add: bases_003_def)
  ultimately show ?thesis using f by auto
qed

subsection \<open>The oracle accepts the composite \<open>psi12\<close>\<close>





























section \<open>Properties of the lanes\<close>

subsection \<open>A lane of revision \<^verbatim>\<open>part_003\<close> only posts proper divisors\<close>

lemma bigint_rem_sign: "0 \<le> a \<Longrightarrow> 0 \<le> bigint_rem a b"
  by (cases "b = 0") (simp_all add: bigint_rem_def sgn_if)

lemma batch_step_nonneg: "0 \<le> snd yq \<Longrightarrow> 0 \<le> snd (batch_step c n x yq)"
  by (cases yq) (simp add: batch_step_def Let_def bigint_rem_sign)

lemma batch4_nonneg: "0 \<le> snd yq \<Longrightarrow> 0 \<le> snd (snd (batch4 c n x j limitSteps yq))"
proof (induction c n x j limitSteps yq rule: batch4.induct)
  case (1 c n x j limitSteps yq)
  then show ?case
    by (subst batch4.simps) (simp add: batch_step_nonneg)
qed

lemma batch1_nonneg: "0 \<le> snd yq \<Longrightarrow> 0 \<le> snd (batch1 c n x j limit yq)"
proof (induction c n x j limit yq rule: batch1.induct)
  case (1 c n x j limit yq)
  then show ?case
    by (subst batch1.simps) (simp add: batch_step_nonneg)
qed

lemma gcd_js_dvd: "gcd_js q n = Some g \<Longrightarrow> 0 \<le> q \<Longrightarrow> 0 < n \<Longrightarrow> g dvd n"
  using gcd_js_correct[of q n] by auto

lemma batch_while_dvd:
  assumes "batch_while c n m x r st = Some st'"
  shows "0 < n \<longrightarrow> fst (snd (snd st)) dvd n \<longrightarrow> fst (snd (snd st')) dvd n"
proof (rule batch_while.raw_induct[where P = "\<lambda>c n m x r st st'.
      0 < n \<longrightarrow> fst (snd (snd st)) dvd n \<longrightarrow> fst (snd (snd st')) dvd n", OF _ assms],
    goal_cases)
  case step: (1 bw c n m x r st st')
  show ?case
  proof (intro impI)
    assume n: "0 < n" and g: "fst (snd (snd st)) dvd n"
    obtain y q g k xs ys where st: "st = (y, q, g, k, xs, ys)" by (cases st)
    show "fst (snd (snd st')) dvd n"
    proof (cases "k < r \<and> g = 1")
      case False
      with step(2) st have "st' = st" by auto
      with g show ?thesis by simp
    next
      case True
      define limit where "limit = (if r - k < m then r - k else m)"
      define b4 where "b4 = batch4 c n x 0 (limit - (limit AND 3)) (y, 1)"
      define yq where "yq = batch1 c n x (fst b4) limit (snd b4)"
      have q: "0 \<le> snd yq"
        unfolding yq_def b4_def by (intro batch1_nonneg batch4_nonneg) simp
      have "gcd_js (snd yq) n \<bind> (\<lambda>g'. bw c n m x r (fst yq, snd yq, g', k + limit, x, y)) = Some st'"
        using step(2) True unfolding st prod.case
        by (simp add: Let_def limit_def yq_def b4_def split_beta cong: if_cong)
      then obtain g' where
        g': "gcd_js (snd yq) n = Some g'" and
        rec: "bw c n m x r (fst yq, snd yq, g', k + limit, x, y) = Some st'"
        by (auto simp: bind_eq_Some_conv)
      from gcd_js_dvd[OF g' q n] step(1)[OF rec] n show ?thesis by simp
    qed
  qed
qed

lemma brent_while_dvd:
  assumes "brent_while c n st = Some st'"
  shows "0 < n \<longrightarrow> fst (snd (snd st)) dvd n \<longrightarrow> fst (snd (snd st')) dvd n"
proof (rule brent_while.raw_induct[where P = "\<lambda>c n st st'.
      0 < n \<longrightarrow> fst (snd (snd st)) dvd n \<longrightarrow> fst (snd (snd st')) dvd n", OF _ assms],
    goal_cases)
  case step: (1 bw c n st st')
  show ?case
  proof (intro impI)
    assume n: "0 < n" and g: "fst (snd (snd st)) dvd n"
    obtain x y g r q xs rest where "st = (x, y, g, r, q, xs, rest)"
      by (cases st)
    moreover obtain ys steps where "rest = (ys, steps)"
      by (cases rest)
    ultimately have st: "st = (x, y, g, r, q, xs, ys, steps)"
      by simp
    show "fst (snd (snd st')) dvd n"
    proof (cases "g = 1 \<and> steps < STEPS_LIMIT")
      case False
      with step(2) st have "st' = st" by auto
      with g show ?thesis by simp
    next
      case True
      define y2 where "y2 = advance1 c n 0 (r AND 3) (advance4 c n 0 (r - (r AND 3)) y)"
      have "batch_while c n 1000 y r (y2, q, g, 0, xs, ys) \<bind>
          (\<lambda>b. bw c n (y, fst b, fst (snd (snd b)), push_bit 1 r, fst (snd b),
             fst (snd (snd (snd (snd b)))), snd (snd (snd (snd (snd b)))), steps + r)) = Some st'"
        using step(2) True unfolding st prod.case
        by (simp add: Let_def y2_def split_def cong: if_cong)
      then obtain b where
        b: "batch_while c n 1000 y r (y2, q, g, 0, xs, ys) = Some b" and
        rec: "bw c n (y, fst b, fst (snd (snd b)), push_bit 1 r, fst (snd b),
             fst (snd (snd (snd (snd b)))), snd (snd (snd (snd (snd b)))), steps + r) = Some st'"
        by (auto simp: bind_eq_Some_conv)
      from batch_while_dvd[OF b] n g st have "fst (snd (snd b)) dvd n" by simp
      with step(1)[OF rec] n show ?thesis by simp
    qed
  qed
qed

lemma backtrack_dvd:
  assumes "backtrack c n xs ys = Some g"
  shows "0 < n \<longrightarrow> g dvd n"
proof (rule backtrack.raw_induct[where P = "\<lambda>c n xs ys g. 0 < n \<longrightarrow> g dvd n", OF _ assms],
    goal_cases)
  case step: (1 bt c n xs ys g)
  show ?case
  proof
    assume n: "0 < n"
    define ys' where "ys' = rho_f c n ys"
    define diff where "diff = (if xs > ys' then xs - ys' else ys' - xs)"
    have diff: "0 \<le> diff" by (simp add: diff_def)
    have "gcd_js diff n \<bind> (\<lambda>g. if g > 1 then Some g else bt c n xs ys') = Some g"
      using step(2) by (simp add: Let_def ys'_def diff_def split del: if_split cong: if_cong)
    then obtain g' where g': "gcd_js diff n = Some g'"
      and rest: "(if g' > 1 then Some g' else bt c n xs ys') = Some g"
      by (auto simp: bind_eq_Some_conv)
    show "g dvd n"
    proof (cases "g' > 1")
      case True
      with rest have "g = g'" by simp
      with gcd_js_dvd[OF g' diff n] show ?thesis by simp
    next
      case False
      with rest have "bt c n xs ys' = Some g" by simp
      from step(1)[OF this] n show ?thesis by simp
    qed
  qed
qed

lemma solveRawBrent_dvd:
  assumes "solveRawBrent n c y = Some g" and "0 < n"
  shows "g dvd n"
proof -
  from assms(1) obtain st where
    st: "brent_while c n (y, y, 1, 1, 1, y, y, 0) = Some st" and
    fin: "(if fst (snd (snd st)) = n
           then backtrack c n (fst (snd (snd (snd (snd (snd st))))))
                  (fst (snd (snd (snd (snd (snd (snd st)))))))
           else Some (fst (snd (snd st)))) = Some g"
    by (auto simp: solveRawBrent_def Let_def bind_eq_Some_conv split_def)
  from brent_while_dvd[OF st] assms(2) have "fst (snd (snd st)) dvd n" by simp
  with fin backtrack_dvd assms(2) show ?thesis
    by (auto split: if_splits)
qed

text \<open>
  What a lane of revision \<^verbatim>\<open>part_003\<close> posts as a factor is a proper divisor of the target.
\<close>

lemma worker_onmessage_factor:
  assumes "worker_onmessage e = Some (Some g)"
  shows "1 < g \<and> g < nStr e \<and> g dvd nStr e"
proof -
  from assms have n0: "nStr e \<noteq> 0"
    by (auto simp: worker_onmessage_def Let_def split: if_splits)
  from assms n0 obtain factor where
    g: "(if factor = 1 \<or> factor = nStr e
         then solveRawBrent (nStr e) (startC e + 3) (seedVal e)
         else Some factor) = Some g" and
    f: "solveRawBrent (nStr e) (startC e) (seedVal e) = Some factor" and
    range: "1 < g" "g < nStr e"
    by (auto simp: worker_onmessage_def Let_def bind_eq_Some_conv split: if_splits)
  from range have "0 < nStr e" by simp
  with g f solveRawBrent_dvd have "g dvd nStr e"
    by (auto split: if_splits)
  with range show ?thesis by simp
qed

subsection \<open>A lane of revision \<^verbatim>\<open>part_002\<close> only posts proper divisors\<close>

lemma batch_while_002_dvd:
  assumes "batch_while_002 c n m x r st = Some st'"
  shows "0 < n \<longrightarrow> 0 \<le> fst (snd st) \<longrightarrow> fst (snd (snd st)) dvd n \<longrightarrow>
    0 \<le> fst (snd st') \<and> fst (snd (snd st')) dvd n"
proof (rule batch_while_002.raw_induct[where P = "\<lambda>c n m x r st st'.
      0 < n \<longrightarrow> 0 \<le> fst (snd st) \<longrightarrow> fst (snd (snd st)) dvd n \<longrightarrow>
      0 \<le> fst (snd st') \<and> fst (snd (snd st')) dvd n", OF _ assms],
    goal_cases)
  case step: (1 bw c n m x r st st')
  show ?case
  proof (intro impI)
    assume n: "0 < n" and q0: "0 \<le> fst (snd st)" and g: "fst (snd (snd st)) dvd n"
    obtain y q g k ys steps where st: "st = (y, q, g, k, ys, steps)" by (cases st)
    show "0 \<le> fst (snd st') \<and> fst (snd (snd st')) dvd n"
    proof (cases "k < r \<and> g = 1")
      case False
      with step(2) st have "st' = st" by auto
      with g q0 show ?thesis by simp
    next
      case True
      define limit where "limit = (if r - k < m then r - k else m)"
      define yq where "yq = batch1 c n x 0 limit (y, q)"
      have q: "0 \<le> snd yq"
        unfolding yq_def using q0 st by (intro batch1_nonneg) simp
      have "gcd_js (snd yq) n \<bind>
          (\<lambda>g'. bw c n m x r (fst yq, snd yq, g', k + limit, y, steps + limit)) = Some st'"
        using step(2) True unfolding st prod.case
        by (simp add: Let_def limit_def yq_def split_beta cong: if_cong)
      then obtain g' where
        g': "gcd_js (snd yq) n = Some g'" and
        rec: "bw c n m x r (fst yq, snd yq, g', k + limit, y, steps + limit) = Some st'"
        by (auto simp: bind_eq_Some_conv)
      from gcd_js_dvd[OF g' q n] step(1)[OF rec] n q show ?thesis by simp
    qed
  qed
qed

lemma brent_while_002_dvd:
  assumes "brent_while_002 c n st = Some st'"
  shows "0 < n \<longrightarrow> 0 \<le> fst (snd (snd (snd (snd st)))) \<longrightarrow> fst (snd (snd st)) dvd n \<longrightarrow>
    fst (snd (snd st')) dvd n"
proof (rule brent_while_002.raw_induct[where P = "\<lambda>c n st st'.
      0 < n \<longrightarrow> 0 \<le> fst (snd (snd (snd (snd st)))) \<longrightarrow> fst (snd (snd st)) dvd n \<longrightarrow>
      fst (snd (snd st')) dvd n", OF _ assms],
    goal_cases)
  case step: (1 bw c n st st')
  show ?case
  proof (intro impI)
    assume n: "0 < n" and q0: "0 \<le> fst (snd (snd (snd (snd st))))"
      and g: "fst (snd (snd st)) dvd n"
    obtain x y g r q ys steps where st: "st = (x, y, g, r, q, ys, steps)"
      by (cases st)
    show "fst (snd (snd st')) dvd n"
    proof (cases "g = 1 \<and> steps < stepLimit")
      case False
      with step(2) st have "st' = st" by auto
      with g show ?thesis by simp
    next
      case True
      define y1 where "y1 = advance1 c n 0 r y"
      have "batch_while_002 c n 128 y r (y1, q, g, 0, ys, steps) \<bind>
          (\<lambda>b. bw c n (y, fst b, fst (snd (snd b)), r * 2, fst (snd b),
             fst (snd (snd (snd (snd b)))), snd (snd (snd (snd (snd b)))))) = Some st'"
        using step(2) True unfolding st prod.case
        by (simp add: Let_def y1_def split_def cong: if_cong)
      then obtain b where
        b: "batch_while_002 c n 128 y r (y1, q, g, 0, ys, steps) = Some b" and
        rec: "bw c n (y, fst b, fst (snd (snd b)), r * 2, fst (snd b),
             fst (snd (snd (snd (snd b)))), snd (snd (snd (snd (snd b))))) = Some st'"
        by (auto simp: bind_eq_Some_conv)
      from batch_while_002_dvd[OF b] n g q0 st
      have "0 \<le> fst (snd b) \<and> fst (snd (snd b)) dvd n" by simp
      with step(1)[OF rec] n show ?thesis by simp
    qed
  qed
qed

lemma column_loop_factor:
  "column_loop n seed i cs = Some (Some g) \<Longrightarrow> 1 < g \<and> g < n \<and> g dvd n"
proof (induction cs arbitrary: i)
  case Nil
  then show ?case by simp
next
  case (Cons a cs)
  show ?case
  proof (cases a)
    case None
    with Cons.prems show ?thesis by simp
  next
    case (Some c)
    define y where "y = seed + i"
    from Cons.prems Some obtain st g' where
      st: "brent_while_002 c n (y, y, 1, 1, 1, y, 0) = Some st" and
      g': "(if fst (snd (snd st)) = n
            then backtrack c n (fst st) (fst (snd (snd (snd (snd (snd st))))))
            else Some (fst (snd (snd st)))) = Some g'" and
      fin: "(if g' > 1 \<and> g' < n then Some (Some g') else column_loop n seed (i + 1) cs)
            = Some (Some g)"
      by (auto simp: Let_def y_def bind_eq_Some_conv split_def)
    show ?thesis
    proof (cases "g' > 1 \<and> g' < n")
      case True
      then have n: "0 < n" by simp
      from brent_while_002_dvd[OF st] n have "fst (snd (snd st)) dvd n" by simp
      with g' backtrack_dvd n have "g' dvd n" by (auto split: if_splits)
      with True fin show ?thesis by simp
    next
      case False
      with fin have "column_loop n seed (i + 1) cs = Some (Some g)" by (simp split: if_splits)
      then show ?thesis by (rule Cons.IH)
    qed
  qed
qed

text \<open>
  What a lane of revision \<^verbatim>\<open>part_002\<close> posts as a factor is a proper divisor of the target.
\<close>

lemma worker_onmessage_002_factor:
  assumes "worker_onmessage_002 e = Some (Some g)"
  shows "1 < g \<and> g < nStr_002 e \<and> g dvd nStr_002 e"
  using assms column_loop_factor[of "nStr_002 e" "seedVal_002 e" 0 "columnData e" g]
  by (auto simp: worker_onmessage_002_def Let_def split: if_splits)

subsection \<open>Both revisions\<close>

lemma engine_003_sound: "lanes_sound (engine_003 A1)"
  unfolding lanes_sound_def
proof (intro allI impI)
  fix env n i g
  assume "eng_lane (engine_003 A1) env n i = Inr (Some (Some g))"
  then obtain c seed where
    "worker_onmessage \<lparr>nStr = n, startC = c, seedVal = seed, workerId = i\<rparr> = Some (Some g)"
    by (auto simp: engine_003_def lane_003_def split: sum.splits)
  from worker_onmessage_factor[OF this] show "1 < g \<and> g < n \<and> g dvd n" by simp
qed

lemma engine_002_sound: "lanes_sound (engine_002 A1)"
  unfolding lanes_sound_def
proof (intro allI impI)
  fix env n i g
  assume "eng_lane (engine_002 A1) env n i = Inr (Some (Some g))"
  then have "worker_onmessage_002
      \<lparr>nStr_002 = n, columnData = A1_column A1 (i mod 6),
       seedVal_002 = int (random1000 env i mod 1000) + 2 + int i * 100\<rparr> = Some (Some g)"
    by (simp add: engine_002_def lane_002_def Let_def)
  from worker_onmessage_002_factor[OF this] show "1 < g \<and> g < n \<and> g dvd n" by simp
qed

lemma engine_002_launch: "lanes_launch (engine_002 A1)"
  by (simp add: lanes_launch_def engine_002_def lane_002_def Let_def)

lemma engine_003_launch: "concat A1 \<noteq> [] \<Longrightarrow> lanes_launch (engine_003 A1)"
  by (auto simp: lanes_launch_def engine_003_def lane_003_def lane_params_003_def
      split: sum.splits)

lemma smallBasis_003:
  "\<forall>p\<in>set (eng_smallBasis (engine_003 A1)). 2 \<le> p \<and> isPrime (eng_bases (engine_003 A1)) p = Some True"
proof -
  have "\<forall>p\<in>set [2, 3, 5, 7, 11, 13, 17, 19, 23]. 2 \<le> p \<and> isPrime bases_003 p = Some True"
    by code_simp
  then show ?thesis by (simp add: engine_003_def)
qed

lemma smallBasis_002:
  "\<forall>p\<in>set (eng_smallBasis (engine_002 A1)). 2 \<le> p \<and> isPrime (eng_bases (engine_002 A1)) p = Some True"
proof -
  have "\<forall>p\<in>set [2, 3, 5, 7, 11, 13, 17, 19, 23, 29, 31, 37].
      2 \<le> p \<and> isPrime bases_002 p = Some True"
    by code_simp
  then show ?thesis by (simp add: engine_002_def)
qed

lemma engines_spec:
  assumes "eng = engine_003 A1 \<or> eng = engine_002 A1"
  shows "lanes_sound eng"
    and "\<forall>p\<in>set (eng_smallBasis eng). 2 \<le> p \<and> isPrime (eng_bases eng) p = Some True"
    and "eng = engine_002 A1 \<or> concat A1 \<noteq> [] \<Longrightarrow> lanes_launch eng"
  using assms engine_003_sound engine_002_sound smallBasis_003 smallBasis_002
    engine_003_launch engine_002_launch by blast+

text \<open>
  C9 (lane purity). The handler of a lane reads its message and nothing else: two
  messages with the same target, polynomial constant and seed (the column of constants
  and the seed, in revision \<^verbatim>\<open>part_002\<close>) have the same outcome, whatever the worker id.
  So the reply of a lane of revision \<^verbatim>\<open>part_003\<close> is the same in every round, and that of a
  lane of revision \<^verbatim>\<open>part_002\<close> is the same in every round that draws the same seed.
\<close>

theorem lane_pure:
  "(nStr e = nStr e' \<and> startC e = startC e' \<and> seedVal e = seedVal e' \<longrightarrow>
      worker_onmessage e = worker_onmessage e') \<and>
   (nStr_002 d = nStr_002 d' \<and> columnData d = columnData d' \<and> seedVal_002 d = seedVal_002 d' \<longrightarrow>
      worker_onmessage_002 d = worker_onmessage_002 d') \<and>
   lane_003 A1 env n i = lane_003 A1 env' n i \<and>
   (random1000 env i mod 1000 = random1000 env' i mod 1000 \<longrightarrow>
      lane_002 A1 env n i = lane_002 A1 env' n i)"
  by (auto simp: worker_onmessage_def worker_onmessage_002_def lane_003_def lane_002_def Let_def
      cong: if_cong)

theorem lane_pure_witness:
  "worker_onmessage \<lparr>nStr = 1763, startC = 1, seedVal = 2, workerId = 0\<rparr> = Some (Some 43) \<and>
   worker_onmessage \<lparr>nStr = 1763, startC = 1, seedVal = 2, workerId = 7\<rparr> = Some (Some 43) \<and>
   lane_003 sample_A1 sample_round 1763 0 = lane_003 sample_A1 late_round 1763 0"
proof -
  have run: "worker_onmessage \<lparr>nStr = 1763, startC = 1, seedVal = 2, workerId = 0\<rparr> = Some (Some 43)"
    by code_simp
  from lane_pure[of "\<lparr>nStr = 1763, startC = 1, seedVal = 2, workerId = 0\<rparr>"
      "\<lparr>nStr = 1763, startC = 1, seedVal = 2, workerId = 7\<rparr>" _ _ sample_A1 sample_round 1763 0
      late_round] run
  show ?thesis by simp
qed

section \<open>Properties of the coordinator\<close>

lemma launch_reply:
  "launch lane is = Inr replies \<Longrightarrow> replies i = Some f \<Longrightarrow> lane i = Inr (Some f)"
proof (induction "is" arbitrary: replies)
  case Nil
  then show ?case by auto
next
  case (Cons j js)
  from Cons.prems(1) obtain reply rest where
    r: "lane j = Inr reply" "launch lane js = Inr rest" "replies = rest(j := reply)"
    by (auto split: sum.splits)
  show ?case
  proof (cases "i = j")
    case True
    with r Cons.prems(2) show ?thesis by simp
  next
    case False
    with r Cons.prems(2) have "rest i = Some f" by simp
    from Cons.IH[OF r(2) this] show ?thesis .
  qed
qed

lemma launch_total:
  "(\<forall>i\<in>set is. \<exists>reply. lane i = Inr reply) \<Longrightarrow> \<exists>replies. launch lane is = Inr replies"
  by (induction "is") (auto split: sum.splits)

lemma launch_error:
  "launch lane is = Inl e \<Longrightarrow> \<exists>i\<in>set is. lane i = Inl e"
  by (induction "is") (auto split: sum.splits)

lemma promise_ok_deliver:
  "promise_ok n replies st \<Longrightarrow> promise_ok n replies (deliver n replies st i)"
  by (auto simp: promise_ok_def deliver_def onmessage_def resolve_def Let_def
      split: option.splits)

lemma promise_ok_foldl:
  "promise_ok n replies st \<Longrightarrow> promise_ok n replies (foldl (deliver n replies) st evs)"
  by (induction evs arbitrary: st) (simp_all add: promise_ok_deliver)

lemma promise_ok_ontimeout:
  "promise_ok n replies st \<Longrightarrow>
   \<exists>v. settled (ontimeout st) = Some v \<and>
     (v = 0 \<or> (\<exists>i. replies i = Some (Some v) \<and> v \<noteq> n \<and> v \<noteq> 1))"
  by (auto simp: promise_ok_def ontimeout_def resolve_def split: option.splits)

lemma findFactorParallel_cases:
  assumes "findFactorParallel eng env n = Some (Inr g)"
  shows "(bigint_rem n 2 = 0 \<and> g = 2) \<or>
    (bigint_rem n 2 \<noteq> 0 \<and> isPrime (eng_bases eng) n = Some True \<and> g = n) \<or>
    (bigint_rem n 2 \<noteq> 0 \<and> isPrime (eng_bases eng) n = Some False \<and>
      (g = 0 \<or> (\<exists>i. eng_lane eng env n i = Inr (Some (Some g)) \<and> g \<noteq> n \<and> g \<noteq> 1)))"
proof (cases "bigint_rem n 2 = 0")
  case True
  with assms show ?thesis by (simp add: findFactorParallel_def)
next
  case odd: False
  from isPrime_total obtain p where p: "isPrime (eng_bases eng) n = Some p" by blast
  show ?thesis
  proof (cases p)
    case True
    with assms odd p show ?thesis by (simp add: findFactorParallel_def)
  next
    case False
    define count where "count = workerCount eng env"
    from assms odd p False obtain replies where
      l: "launch (eng_lane eng env n) [0..<count] = Inr replies" and
      s: "settled (ontimeout (foldl (deliver n replies)
            \<lparr>resolved = False, activeWorkers = int count, settled = None\<rparr>
            (events count (arrivals env)))) = Some g"
      by (auto simp: findFactorParallel_def Let_def count_def split: sum.splits)
    have "promise_ok n replies \<lparr>resolved = False, activeWorkers = int count, settled = None\<rparr>"
      by (simp add: promise_ok_def)
    from promise_ok_ontimeout[OF promise_ok_foldl[OF this,
          of "events count (arrivals env)"]] s
    have "g = 0 \<or> (\<exists>i. replies i = Some (Some g) \<and> g \<noteq> n \<and> g \<noteq> 1)"
      by auto
    with launch_reply[OF l] have
      "g = 0 \<or> (\<exists>i. eng_lane eng env n i = Inr (Some (Some g)) \<and> g \<noteq> n \<and> g \<noteq> 1)"
      by blast
    with odd p False show ?thesis by simp
  qed
qed

lemma findFactorParallel_total: "\<exists>r. findFactorParallel eng env n = Some r"
proof (cases "bigint_rem n 2 = 0")
  case True
  then show ?thesis by (simp add: findFactorParallel_def)
next
  case odd: False
  from isPrime_total obtain p where p: "isPrime (eng_bases eng) n = Some p" by blast
  show ?thesis
  proof (cases p)
    case True
    with odd p show ?thesis by (simp add: findFactorParallel_def)
  next
    case False
    define count where "count = workerCount eng env"
    show ?thesis
    proof (cases "launch (eng_lane eng env n) [0..<count]")
      case (Inl e)
      with odd p False show ?thesis by (simp add: findFactorParallel_def Let_def count_def)
    next
      case (Inr replies)
      have "promise_ok n replies \<lparr>resolved = False, activeWorkers = int count, settled = None\<rparr>"
        by (simp add: promise_ok_def)
      from promise_ok_ontimeout[OF promise_ok_foldl[OF this,
            of "events count (arrivals env)"]] Inr odd p False
      show ?thesis by (auto simp: findFactorParallel_def Let_def count_def)
    qed
  qed
qed

lemma findFactorParallel_no_error:
  assumes "lanes_launch eng"
  shows "findFactorParallel eng env n \<noteq> Some (Inl e)"
proof
  assume h: "findFactorParallel eng env n = Some (Inl e)"
  from isPrime_total obtain p where p: "isPrime (eng_bases eng) n = Some p" by blast
  from h p have "launch (eng_lane eng env n) [0..<workerCount eng env] = Inl e"
    by (auto simp: findFactorParallel_def Let_def split: if_splits sum.splits)
  from launch_error[OF this] assms show False
    by (auto simp: lanes_launch_def) (metis sum.distinct(1))
qed

lemma findFactorParallel_proper:
  assumes "lanes_sound eng" "findFactorParallel eng env n = Some (Inr g)"
    "isPrime (eng_bases eng) n = Some False" "2 \<le> n" "g \<noteq> 0"
  shows "1 < g \<and> g < n \<and> g dvd n"
proof -
  from findFactorParallel_cases[OF assms(2)] assms(3,5)
  consider "bigint_rem n 2 = 0" "g = 2"
    | i where "eng_lane eng env n i = Inr (Some (Some g))"
    by auto
  then show ?thesis
  proof cases
    case 1
    with assms(4) have ev: "even n" by (simp add: bigint_rem_nonneg even_iff_mod_2_eq_zero)
    have "n \<noteq> 2" using assms(3) by (auto simp: isPrime_def)
    with ev assms(4) 1(2) show ?thesis by (auto elim!: evenE)
  next
    case 2
    with assms(1) show ?thesis by (auto simp: lanes_sound_def)
  qed
qed


lemma workerCount_engines:
  "eng = engine_003 A1 \<or> eng = engine_002 A1 \<Longrightarrow> 4 \<le> workerCount eng env"
  by (auto simp: workerCount_def engine_003_def engine_002_def Let_def)




subsection \<open>Rounds in which no lane delivers a factor\<close>

lemma exhausted_foldl:
  assumes "\<forall>i\<in>set evs. replies i = None \<or> replies i = Some None"
    and "\<not> resolved st" and "settled st = None \<or> settled st = Some 0"
  shows "\<not> resolved (foldl (deliver n replies) st evs) \<and>
    (settled (foldl (deliver n replies) st evs) = None \<or>
     settled (foldl (deliver n replies) st evs) = Some 0)"
  using assms
proof (induction evs arbitrary: st)
  case Nil
  then show ?case by simp
next
  case (Cons i evs)
  have "\<not> resolved (deliver n replies st i) \<and>
      (settled (deliver n replies st i) = None \<or> settled (deliver n replies st i) = Some 0)"
    using Cons.prems
    by (auto simp: deliver_def onmessage_def resolve_def Let_def split: option.splits)
  with Cons.IH[of "deliver n replies st i"] Cons.prems(1) show ?case by simp
qed

lemma all_exhausted_foldl:
  assumes "\<forall>i\<in>set evs. replies i = Some None"
    and "\<not> resolved st" and "settled st = None" and "int (length evs) \<le> activeWorkers st"
  shows "settled (foldl (deliver n replies) st evs) =
    (if evs \<noteq> [] \<and> activeWorkers st = int (length evs) then Some 0 else None) \<and>
    \<not> resolved (foldl (deliver n replies) st evs)"
  using assms
proof (induction evs arbitrary: st)
  case Nil
  then show ?case by simp
next
  case (Cons i evs)
  define st' where "st' = deliver n replies st i"
  have r: "replies i = Some None" using Cons.prems(1) by simp
  have st': "\<not> resolved st'" "activeWorkers st' = activeWorkers st - 1"
    "settled st' = (if activeWorkers st = 1 then Some 0 else None)"
    using Cons.prems(2,3) r
    by (auto simp: st'_def deliver_def onmessage_def resolve_def Let_def)
  show ?case
  proof (cases "activeWorkers st = 1")
    case True
    with Cons.prems(4) have "evs = []" by simp
    with st' True show ?thesis by (simp add: st'_def)
  next
    case False
    with st'(3) have s: "settled st' = None" by simp
    have le: "int (length evs) \<le> activeWorkers st'" using Cons.prems(4) st'(2) by simp
    from Cons.IH[OF _ st'(1) s le] Cons.prems(1)
    have "settled (foldl (deliver n replies) st' evs) =
        (if evs \<noteq> [] \<and> activeWorkers st' = int (length evs) then Some 0 else None) \<and>
        \<not> resolved (foldl (deliver n replies) st' evs)"
      by simp
    moreover have "evs \<noteq> []" if "activeWorkers st = int (length (i # evs))"
      using that False by auto
    ultimately show ?thesis using st'(2) by (auto simp: st'_def)
  qed
qed

text \<open>
  C5 (coordinator failure). On a target that passes the two guards of \<open>findFactorParallel\<close>,
  with lanes that can be launched (always in revision \<^verbatim>\<open>part_002\<close>, with a non-empty \<open>A1\<close> in
  revision \<^verbatim>\<open>part_003\<close>), the promise is never rejected and always settles. When no reply that
  arrives before the timer carries a factor, the value is \<open>0\<close>; and when every lane has
  replied null, the last reply has already settled the promise with \<open>0\<close>, before the timer.
  The timer is the one \<open>ontimeout\<close> event of the round, as the single \<^verbatim>\<open>setTimeout\<close> of the
  source, set outside the loop over the lanes.
\<close>

theorem coordinator_failure:
  assumes "eng = engine_003 A1 \<or> eng = engine_002 A1"
    and "eng = engine_002 A1 \<or> concat A1 \<noteq> []"
    and "bigint_rem n 2 \<noteq> 0" and "isPrime (eng_bases eng) n = Some False"
  shows "\<exists>replies.
    launch (eng_lane eng env n) [0..<workerCount eng env] = Inr replies \<and>
    (\<exists>v. findFactorParallel eng env n = Some (Inr v)) \<and>
    ((\<forall>i\<in>set (arrivals env). i < workerCount eng env \<longrightarrow>
         replies i = None \<or> replies i = Some None) \<longrightarrow>
       findFactorParallel eng env n = Some (Inr 0)) \<and>
    ((\<forall>i<workerCount eng env. replies i = Some None \<and> i \<in> set (arrivals env)) \<longrightarrow>
       settled (foldl (deliver n replies)
         \<lparr>resolved = False, activeWorkers = int (workerCount eng env), settled = None\<rparr>
         (events (workerCount eng env) (arrivals env))) = Some 0)"
proof -
  define count where "count = workerCount eng env"
  define st0 where "st0 = \<lparr>resolved = False, activeWorkers = int count, settled = None\<rparr>"
  define evs where "evs = events count (arrivals env)"
  have ll: "lanes_launch eng" using engines_spec(3)[OF assms(1,2)] .
  then have "\<forall>i\<in>set [0..<count]. \<exists>reply. eng_lane eng env n i = Inr reply"
    by (simp add: lanes_launch_def)
  from launch_total[OF this] obtain replies where
    l: "launch (eng_lane eng env n) [0..<count] = Inr replies" by blast
  have val: "findFactorParallel eng env n = map_option Inr (settled (ontimeout (foldl (deliver n replies) st0 evs)))"
    using assms(3,4) l by (simp add: findFactorParallel_def Let_def count_def st0_def evs_def)
  have a: "\<exists>v. findFactorParallel eng env n = Some (Inr v)"
  proof -
    from findFactorParallel_total obtain r where r: "findFactorParallel eng env n = Some r"
      by blast
    with findFactorParallel_no_error[OF ll, of env n] show ?thesis by (cases r) auto
  qed
  have b: "findFactorParallel eng env n = Some (Inr 0)"
    if h: "\<forall>i\<in>set (arrivals env). i < count \<longrightarrow> replies i = None \<or> replies i = Some None"
  proof -
    have "\<forall>i\<in>set evs. replies i = None \<or> replies i = Some None"
      using h by (auto simp: evs_def events_def)
    from exhausted_foldl[OF this, of st0 n]
    have "\<not> resolved (foldl (deliver n replies) st0 evs) \<and>
      (settled (foldl (deliver n replies) st0 evs) = None \<or>
       settled (foldl (deliver n replies) st0 evs) = Some 0)"
      by (simp add: st0_def)
    then have "settled (ontimeout (foldl (deliver n replies) st0 evs)) = Some 0"
      by (auto simp: ontimeout_def resolve_def)
    with val show ?thesis by simp
  qed
  have c: "settled (foldl (deliver n replies) st0 evs) = Some 0"
    if h: "\<forall>i<count. replies i = Some None \<and> i \<in> set (arrivals env)"
  proof -
    have s: "set evs = {..<count}" using h by (auto simp: evs_def events_def)
    have d: "distinct evs" by (simp add: evs_def events_def)
    have len: "length evs = count"
      using distinct_card[OF d] s by simp
    have pos: "evs \<noteq> []" using len workerCount_engines[OF assms(1), of env]
      by (auto simp: count_def)
    have "\<forall>i\<in>set evs. replies i = Some None" using h s by auto
    from all_exhausted_foldl[OF this, of st0 n] len pos show ?thesis
      by (simp add: st0_def)
  qed
  from l a b c show ?thesis
    unfolding count_def st0_def evs_def by blast
qed

theorem coordinator_failure_witness:
  "findFactorParallel (engine_003 sample_A1) late_round 899 = Some (Inr 0)"
proof -
  have np: "isPrime (eng_bases (engine_003 sample_A1)) 899 = Some False"
    unfolding engine_003_def by simp code_simp
  have odd: "bigint_rem 899 2 \<noteq> 0" by (simp add: bigint_rem_def)
  have ne: "concat sample_A1 \<noteq> []" by (simp add: sample_A1_def)
  from coordinator_failure[of "engine_003 sample_A1" sample_A1 899 late_round] np odd ne
  show ?thesis by (auto simp: late_round_def)
qed

section \<open>Properties of the sieve\<close>

lemma strip_prime_spec:
  "2 \<le> p \<Longrightarrow> 1 \<le> temp \<Longrightarrow>
   \<exists>k temp'. strip_prime p factors temp = Some (factors @ replicate k p, temp') \<and>
      temp = temp' * p ^ k \<and> 1 \<le> temp' \<and> \<not> p dvd temp'"
proof (induction "nat temp" arbitrary: temp factors rule: less_induct)
  case less
  have rem: "bigint_rem temp p = temp mod p" and dv: "bigint_div temp p = temp div p"
    using less.prems by (simp_all add: bigint_rem_nonneg bigint_div_nonneg)
  show ?case
  proof (cases "p dvd temp")
    case False
    then have "strip_prime p factors temp = Some (factors @ replicate 0 p, temp)"
      by (subst strip_prime.simps) (simp add: rem dvd_eq_mod_eq_0)
    moreover have "temp = temp * p ^ 0" by simp
    ultimately show ?thesis using False less.prems(2) by blast
  next
    case True
    then obtain t where t: "temp = p * t" by (auto elim: dvdE)
    have "0 < p * t" "0 < p" using t less.prems by simp_all
    then have "0 < t" by (rule zero_less_mult_pos)
    then have tpos: "1 \<le> t" by simp
    have tdiv: "temp div p = t" using t less.prems(1) by simp
    have "t * 1 < t * p" using \<open>0 < t\<close> less.prems(1) by (intro mult_strict_left_mono) simp_all
    then have "t < temp" using t by (simp add: mult.commute)
    then have "nat t < nat temp" using tpos by simp
    from less.hyps[OF this less.prems(1) tpos, of "factors @ [p]"] obtain k temp' where
      r: "strip_prime p (factors @ [p]) t = Some ((factors @ [p]) @ replicate k p, temp')"
         "t = temp' * p ^ k" "1 \<le> temp'" "\<not> p dvd temp'" by blast
    have "strip_prime p factors temp = Some (factors @ replicate (Suc k) p, temp')"
      using True r(1) by (subst strip_prime.simps) (simp add: rem dv tdiv dvd_eq_mod_eq_0)
    moreover have "temp = temp' * p ^ Suc k" using t r(2) by simp
    ultimately show ?thesis using r(3,4) by blast
  qed
qed

lemma sieve_basis_spec:
  "\<forall>p\<in>set ps. 2 \<le> p \<Longrightarrow> 1 \<le> temp \<Longrightarrow>
   \<exists>small residual. sieve_basis ps factors temp = Some (factors @ small, residual) \<and>
      set small \<subseteq> set ps \<and> prod_list small * residual = temp \<and> 1 \<le> residual \<and>
      (\<forall>p\<in>set ps. \<not> p dvd residual)"
proof (induction ps arbitrary: factors temp)
  case Nil
  then show ?case by simp
next
  case (Cons p ps)
  from Cons.prems have p: "2 \<le> p" and ps: "\<forall>p\<in>set ps. 2 \<le> p" by simp_all
  from strip_prime_spec[OF p Cons.prems(2), of factors] obtain k temp' where
    s: "strip_prime p factors temp = Some (factors @ replicate k p, temp')"
       "temp = temp' * p ^ k" "1 \<le> temp'" "\<not> p dvd temp'" by blast
  from Cons.IH[OF ps s(3), of "factors @ replicate k p"] obtain small residual where
    r: "sieve_basis ps (factors @ replicate k p) temp' = Some ((factors @ replicate k p) @ small, residual)"
       "set small \<subseteq> set ps" "prod_list small * residual = temp'" "1 \<le> residual"
       "\<forall>p\<in>set ps. \<not> p dvd residual" by blast
  have "residual dvd temp'" using r(3) by (metis dvd_triv_right)
  with s(4) have np: "\<not> p dvd residual" using dvd_trans by blast
  have "sieve_basis (p # ps) factors temp = Some (factors @ (replicate k p @ small), residual)"
    using s(1) r(1) by simp
  moreover have "set (replicate k p @ small) \<subseteq> set (p # ps)" using r(2) by auto
  moreover have "prod_list (replicate k p @ small) * residual = temp"
    using s(2) r(3) by (simp add: prod_list_replicate mult.assoc)
  ultimately show ?case using r(4,5) np by (intro exI[of _ "replicate k p @ small"] exI[of _ residual]) simp
qed

lemma sieve_queue_single:
  assumes "\<forall>p\<in>set basis. 2 \<le> p" "1 \<le> n"
  shows "\<exists>small residual.
    sieve_basis basis [] n = Some (small, residual) \<and>
    sieve_queue basis [n] [] [] = Some (small, if 1 < residual then [residual] else []) \<and>
    set small \<subseteq> set basis \<and> prod_list small * residual = n \<and> 1 \<le> residual \<and>
    (\<forall>p\<in>set basis. \<not> p dvd residual)"
proof -
  from sieve_basis_spec[OF assms, of "[]"] obtain small residual where
    s: "sieve_basis basis [] n = Some (small, residual)" "set small \<subseteq> set basis"
       "prod_list small * residual = n" "1 \<le> residual" "\<forall>p\<in>set basis. \<not> p dvd residual"
    by auto
  have "sieve_queue basis [n] [] [] = Some (small, if 1 < residual then [residual] else [])"
    using s(1) by simp
  with s show ?thesis by blast
qed

text \<open>
  C7 (sieve). For every \<open>n \<ge> 2\<close> the sieve of either revision returns: the small factors
  are taken from the basis (primes from \<open>2\<close> up to \<open>23\<close> in revision \<^verbatim>\<open>part_003\<close>, up to \<open>37\<close> in
  revision \<^verbatim>\<open>part_002\<close>), their product times the residual is \<open>n\<close>, and the residual is \<open>1\<close> or is
  above \<open>1\<close> and divisible by no prime of the basis; a residual above \<open>1\<close> is what the queue
  then holds.
\<close>

theorem sieve_contract:
  assumes "basis = eng_smallBasis (engine_003 A1) \<or> basis = eng_smallBasis (engine_002 A1)"
    and "2 \<le> n"
  shows "(\<forall>p\<in>set basis. 2 \<le> p \<and> p \<le> 37 \<and> (\<forall>d\<in>{2..<p}. \<not> d dvd p)) \<and>
    (\<exists>smallFactors residual.
       sieve_basis basis [] n = Some (smallFactors, residual) \<and>
       sieve_queue basis [n] [] [] = Some (smallFactors, if 1 < residual then [residual] else []) \<and>
       set smallFactors \<subseteq> set basis \<and>
       prod_list smallFactors * residual = n \<and>
       (residual = 1 \<or> (1 < residual \<and> (\<forall>p\<in>set basis. \<not> p dvd residual))))"
proof
  have "\<forall>p\<in>set [2, 3, 5, 7, 11, 13, 17, 19, 23, 29, 31, 37 :: int].
      2 \<le> p \<and> p \<le> 37 \<and> (\<forall>d\<in>{2..<p}. \<not> d dvd p)"
    by code_simp
  with assms(1) show pr: "\<forall>p\<in>set basis. 2 \<le> p \<and> p \<le> 37 \<and> (\<forall>d\<in>{2..<p}. \<not> d dvd p)"
    by (auto simp: engine_003_def engine_002_def)
  then have b2: "\<forall>p\<in>set basis. 2 \<le> p" by simp
  from assms(2) have "1 \<le> n" by simp
  from sieve_queue_single[OF b2 this] obtain small residual where
    s: "sieve_basis basis [] n = Some (small, residual)"
    "sieve_queue basis [n] [] [] = Some (small, if 1 < residual then [residual] else [])"
    "set small \<subseteq> set basis" "prod_list small * residual = n" "1 \<le> residual"
    "\<forall>p\<in>set basis. \<not> p dvd residual"
    by blast
  from s(5,6) have "residual = 1 \<or> (1 < residual \<and> (\<forall>p\<in>set basis. \<not> p dvd residual))"
    by auto
  with s(1-4) show "\<exists>smallFactors residual.
       sieve_basis basis [] n = Some (smallFactors, residual) \<and>
       sieve_queue basis [n] [] [] = Some (smallFactors, if 1 < residual then [residual] else []) \<and>
       set smallFactors \<subseteq> set basis \<and>
       prod_list smallFactors * residual = n \<and>
       (residual = 1 \<or> (1 < residual \<and> (\<forall>p\<in>set basis. \<not> p dvd residual)))"
    by blast
qed

theorem sieve_contract_witness:
  "sieve_basis (eng_smallBasis (engine_003 sample_A1)) [] 3596 = Some ([2, 2], 899) \<and>
   sieve_basis (eng_smallBasis (engine_003 sample_A1)) [] 1800 = Some ([2, 2, 2, 3, 3, 5, 5], 1)"
proof -
  have "sieve_basis (eng_smallBasis (engine_003 sample_A1)) [] 3596 = Some ([2, 2], 899)"
    "sieve_basis (eng_smallBasis (engine_003 sample_A1)) [] 1800 = Some ([2, 2, 2, 3, 3, 5, 5], 1)"
    by code_simp+
  with sieve_contract[of "eng_smallBasis (engine_003 sample_A1)" sample_A1 3596]
  show ?thesis by simp
qed

section \<open>Properties of the engine\<close>

text \<open>
  The deep-processing loop returns from every state whose queue holds numbers above \<open>1\<close>.
  It only appends to \<open>factors\<close>; what it appends multiplies to the product of the queue
  (the loop invariant \<open>product(factors) * product(queue) = n\<close>), and each appended number
  is above \<open>1\<close> and either passes \<open>isPrime\<close> or is a cofactor on which a round of the
  coordinator returned \<open>0\<close>.
\<close>

lemma split_weight:
  fixes f co :: int
  assumes "2 \<le> f" "2 \<le> co"
  shows "(2 * f - 1) + (2 * co - 1) < 2 * (f * co) - 1"
proof -
  have "0 \<le> (f - 2) * (co - 2)" using assms by simp
  then have "2 * f + 2 * co \<le> f * co + 4" by (simp add: algebra_simps)
  moreover have "4 \<le> f * co" using assms mult_mono[of 2 f 2 co] by simp
  ultimately show ?thesis by linarith
qed

lemma deep_loop_spec:
  assumes sound: "lanes_sound eng"
  shows "\<forall>q\<in>set queue. 2 \<le> q \<Longrightarrow>
    \<exists>r. deep_loop eng rounds k factors queue = Some r \<and>
      (\<forall>fs. r = Inr fs \<longrightarrow>
        (\<exists>new. fs = factors @ new \<and> prod_list new = prod_list queue \<and>
           (\<forall>x\<in>set new. 2 \<le> x \<and>
              (isPrime (eng_bases eng) x = Some True \<or>
               (isPrime (eng_bases eng) x = Some False \<and>
                (\<exists>j. findFactorParallel eng (rounds j) x = Some (Inr 0)))))))"
proof (induction "nat (\<Sum>x\<leftarrow>queue. 2 * x - 1)" arbitrary: queue factors k rule: less_induct)
  case less
  let ?bs = "eng_bases eng"
  let ?ok = "\<lambda>x. 2 \<le> x \<and> (isPrime ?bs x = Some True \<or>
      (isPrime ?bs x = Some False \<and> (\<exists>j. findFactorParallel eng (rounds j) x = Some (Inr 0))))"
  show ?case
  proof (cases "queue = []")
    case True
    then have "deep_loop eng rounds k factors queue = Some (Inr factors)"
      by (subst deep_loop.simps) simp
    with True show ?thesis by simp
  next
    case False
    define current where "current = last queue"
    define queue' where "queue' = butlast queue"
    have q: "queue = queue' @ [current]"
      using False by (simp add: current_def queue'_def)
    have cur: "2 \<le> current" and q': "\<forall>q\<in>set queue'. 2 \<le> q"
      using less.prems q by auto
    have w: "(\<Sum>x\<leftarrow>queue. 2 * x - 1) = (\<Sum>x\<leftarrow>queue'. 2 * x - 1) + (2 * current - 1)"
      by (simp add: q)
    have wpos: "0 \<le> (\<Sum>x\<leftarrow>queue'. 2 * x - 1)"
      using q' by (intro sum_list_nonneg) auto
    from isPrime_total obtain p where p: "isPrime ?bs current = Some p" by blast
    show ?thesis
    proof (cases p)
      case True
      have "nat (\<Sum>x\<leftarrow>queue'. 2 * x - 1) < nat (\<Sum>x\<leftarrow>queue. 2 * x - 1)"
        using w wpos cur by simp
      from less.hyps[OF this q', of k "factors @ [current]"] obtain r where
        r: "deep_loop eng rounds k (factors @ [current]) queue' = Some r"
        "\<forall>fs. r = Inr fs \<longrightarrow> (\<exists>new. fs = (factors @ [current]) @ new \<and>
            prod_list new = prod_list queue' \<and> (\<forall>x\<in>set new. ?ok x))"
        by blast
      have unf: "deep_loop eng rounds k factors queue = Some r"
        using False p True r(1)
        by (subst deep_loop.simps) (simp add: current_def queue'_def Let_def)
      have "\<exists>new. fs = factors @ new \<and> prod_list new = prod_list queue \<and> (\<forall>x\<in>set new. ?ok x)"
        if "r = Inr fs" for fs
      proof -
        from r(2) that obtain new where
          n: "fs = (factors @ [current]) @ new" "prod_list new = prod_list queue'"
          "\<forall>x\<in>set new. ?ok x" by blast
        have "fs = factors @ (current # new)" using n(1) by simp
        moreover have "prod_list (current # new) = prod_list queue"
          using n(2) q by (simp add: mult.commute)
        moreover have "\<forall>x\<in>set (current # new). ?ok x"
          using n(3) cur p True by simp
        ultimately show ?thesis by blast
      qed
      with unf show ?thesis by blast
    next
      case notprime: False
      from findFactorParallel_total obtain res where
        res: "findFactorParallel eng (rounds k) current = Some res" by blast
      show ?thesis
      proof (cases res)
        case (Inl e)
        have "deep_loop eng rounds k factors queue = Some (Inl e)"
          using False p notprime res Inl
          by (subst deep_loop.simps) (simp add: current_def queue'_def Let_def)
        then show ?thesis by simp
      next
        case (Inr factor)
        have proper: "1 < factor \<and> factor < current \<and> factor dvd current" if "factor \<noteq> 0"
          using findFactorParallel_proper[OF sound, of "rounds k" current factor] res Inr p
            notprime cur that by simp
        show ?thesis
        proof (cases "factor = 0 \<or> factor = current")
          case True
          with proper have f0: "factor = 0" by auto
          have "nat (\<Sum>x\<leftarrow>queue'. 2 * x - 1) < nat (\<Sum>x\<leftarrow>queue. 2 * x - 1)"
            using w wpos cur by simp
          from less.hyps[OF this q', of "k + 1" "factors @ [current]"] obtain r where
            r: "deep_loop eng rounds (k + 1) (factors @ [current]) queue' = Some r"
            "\<forall>fs. r = Inr fs \<longrightarrow> (\<exists>new. fs = (factors @ [current]) @ new \<and>
                prod_list new = prod_list queue' \<and> (\<forall>x\<in>set new. ?ok x))"
            by blast
          have unf: "deep_loop eng rounds k factors queue = Some r"
            using False p notprime res Inr True r(1)
            by (subst deep_loop.simps) (simp add: current_def queue'_def Let_def)
          have okc: "?ok current"
            using cur p notprime res Inr f0 by auto
          have "\<exists>new. fs = factors @ new \<and> prod_list new = prod_list queue \<and> (\<forall>x\<in>set new. ?ok x)"
            if "r = Inr fs" for fs
          proof -
            from r(2) that obtain new where
              n: "fs = (factors @ [current]) @ new" "prod_list new = prod_list queue'"
              "\<forall>x\<in>set new. ?ok x" by blast
            have "fs = factors @ (current # new)" using n(1) by simp
            moreover have "prod_list (current # new) = prod_list queue"
              using n(2) q by (simp add: mult.commute)
            moreover have "\<forall>x\<in>set (current # new). ?ok x"
              using n(3) okc by simp
            ultimately show ?thesis by blast
          qed
          with unf show ?thesis by blast
        next
          case split: False
          with proper have pr: "1 < factor" "factor < current" "factor dvd current" by auto
          define co where "co = bigint_div current factor"
          have co: "co = current div factor" using pr cur by (simp add: co_def bigint_div_nonneg)
          have prod: "factor * co = current" using pr(3) co by simp
          have co2: "2 \<le> co"
          proof (rule ccontr)
            assume "\<not> 2 \<le> co"
            then have "co \<le> 1" by simp
            with pr(1) have "factor * co \<le> factor * 1" by (intro mult_left_mono) simp_all
            with prod pr(2) show False by simp
          qed
          define queue2 where "queue2 = queue' @ [factor, co]"
          have q2: "\<forall>q\<in>set queue2. 2 \<le> q" using q' pr(1) co2 by (auto simp: queue2_def)
          have "(\<Sum>x\<leftarrow>queue2. 2 * x - 1) < (\<Sum>x\<leftarrow>queue. 2 * x - 1)"
            using split_weight[of factor co] pr(1) co2 prod by (simp add: queue2_def w)
          moreover have "0 \<le> (\<Sum>x\<leftarrow>queue2. 2 * x - 1)"
            using q2 by (intro sum_list_nonneg) auto
          ultimately have "nat (\<Sum>x\<leftarrow>queue2. 2 * x - 1) < nat (\<Sum>x\<leftarrow>queue. 2 * x - 1)"
            by simp
          from less.hyps[OF this q2, of "k + 1" factors] obtain r where
            r: "deep_loop eng rounds (k + 1) factors queue2 = Some r"
            "\<forall>fs. r = Inr fs \<longrightarrow> (\<exists>new. fs = factors @ new \<and>
                prod_list new = prod_list queue2 \<and> (\<forall>x\<in>set new. ?ok x))"
            by blast
          have unf: "deep_loop eng rounds k factors queue = Some r"
            using False p notprime res Inr split r(1)
            by (subst deep_loop.simps)
              (simp add: current_def queue'_def queue2_def co_def Let_def)
          have "prod_list queue2 = prod_list queue"
            using prod by (simp add: queue2_def q mult.assoc)
          with r(2) unf show ?thesis by simp
        qed
      qed
    qed
  qed
qed

lemma deep_loop_no_error:
  assumes "deep_loop eng rounds k factors queue = Some r"
  shows "lanes_launch eng \<longrightarrow> (\<exists>fs. r = Inr fs)"
proof (rule deep_loop.raw_induct[where P = "\<lambda>eng rounds k factors queue r.
      lanes_launch eng \<longrightarrow> (\<exists>fs. r = Inr fs)", OF _ assms], goal_cases)
  case step: (1 dl eng rounds k factors queue r)
  show ?case
  proof
    assume ll: "lanes_launch eng"
    show "\<exists>fs. r = Inr fs"
    proof (cases "queue = []")
      case True
      with step(2) show ?thesis by auto
    next
      case False
      from isPrime_total obtain p where p: "isPrime (eng_bases eng) (last queue) = Some p"
        by blast
      show ?thesis
      proof (cases p)
        case True
        with step(2) False p
        have "dl eng rounds k (factors @ [last queue]) (butlast queue) = Some r"
          by (simp add: Let_def)
        from step(1)[OF this] ll show ?thesis by simp
      next
        case notprime: False
        from findFactorParallel_total obtain res where
          res: "findFactorParallel eng (rounds k) (last queue) = Some res" by blast
        from findFactorParallel_no_error[OF ll] res obtain factor where
          f: "res = Inr factor" by (cases res) auto
        from step(2) False p notprime res f
        have "dl eng rounds (k + 1) (factors @ [last queue]) (butlast queue) = Some r \<or>
          dl eng rounds (k + 1) factors
            (butlast queue @ [factor, bigint_div (last queue) factor]) = Some r"
          by (simp add: Let_def split: if_splits)
        with step(1) ll show ?thesis by blast
      qed
    qed
  qed
qed

lemma prod_list_sort: "prod_list (sort xs) = prod_list (xs :: int list)"
  by (metis mset_sort prod_mset_prod_list)

lemma factorizeAsync_spec:
  assumes sound: "lanes_sound eng"
    and basis: "\<forall>p\<in>set (eng_smallBasis eng). 2 \<le> p \<and> isPrime (eng_bases eng) p = Some True"
    and n: "2 \<le> n"
  shows "\<exists>r. factorizeAsync eng rounds n = Some r \<and>
    (lanes_launch eng \<longrightarrow> (\<exists>fs. r = Inr fs)) \<and>
    (\<forall>fs. r = Inr fs \<longrightarrow> sorted fs \<and> prod_list fs = n \<and>
      (\<forall>x\<in>set fs. 2 \<le> x \<and>
         (isPrime (eng_bases eng) x = Some True \<or>
          (isPrime (eng_bases eng) x = Some False \<and>
           (\<exists>j. findFactorParallel eng (rounds j) x = Some (Inr 0))))))"
proof -
  let ?ok = "\<lambda>x. 2 \<le> x \<and> (isPrime (eng_bases eng) x = Some True \<or>
      (isPrime (eng_bases eng) x = Some False \<and>
       (\<exists>j. findFactorParallel eng (rounds j) x = Some (Inr 0))))"
  have b2: "\<forall>p\<in>set (eng_smallBasis eng). 2 \<le> p" using basis by simp
  from n have n1: "1 \<le> n" by simp
  from sieve_queue_single[OF b2 n1] obtain small residual where
    s: "sieve_queue (eng_smallBasis eng) [n] [] [] =
          Some (small, if 1 < residual then [residual] else [])"
       "set small \<subseteq> set (eng_smallBasis eng)" "prod_list small * residual = n" "1 \<le> residual"
    by blast
  define queue where "queue = (if 1 < residual then [residual] else [])"
  have q: "\<forall>q\<in>set queue. 2 \<le> q" by (simp add: queue_def)
  have pq: "prod_list queue = residual" using s(4) by (simp add: queue_def)
  from deep_loop_spec[OF sound q, of rounds 0 small] obtain r where
    r: "deep_loop eng rounds 0 small queue = Some r"
       "\<forall>fs. r = Inr fs \<longrightarrow> (\<exists>new. fs = small @ new \<and> prod_list new = prod_list queue \<and>
          (\<forall>x\<in>set new. ?ok x))"
    by blast
  have res: "factorizeAsync eng rounds n = Some (map_sum id sort r)"
    using n s(1) r(1) by (simp add: factorizeAsync_def queue_def)
  have launch: "lanes_launch eng \<longrightarrow> (\<exists>fs. map_sum id sort r = Inr fs)"
    using deep_loop_no_error[OF r(1)] by auto
  have post: "sorted fs \<and> prod_list fs = n \<and> (\<forall>x\<in>set fs. ?ok x)"
    if "map_sum id sort r = Inr fs" for fs
  proof -
    from that obtain fs' where fs': "r = Inr fs'" "fs = sort fs'" by (cases r) auto
    from r(2) fs'(1) obtain new where
      new: "fs' = small @ new" "prod_list new = prod_list queue" "\<forall>x\<in>set new. ?ok x"
      by blast
    have "prod_list fs = n"
      using new(1,2) pq s(3) by (simp add: fs'(2) prod_list_sort)
    moreover have "\<forall>x\<in>set fs. ?ok x"
      using new(1,3) s(2) basis by (auto simp: fs'(2))
    ultimately show ?thesis by (simp add: fs'(2))
  qed
  from res launch post show ?thesis by blast
qed

section \<open>Reconstruction, primality agreement and order of the output\<close>

text \<open>
  C1 (reconstruction). For every input \<open>n \<ge> 1\<close>, either revision of \<open>factorizeAsync\<close> returns
  a list whose product is \<open>n\<close>, whatever the rounds of the coordinator do; an unresolved
  cofactor stands in the product as itself. The one exception is a rejected promise, which
  only revision \<^verbatim>\<open>part_003\<close> with an empty matrix \<open>A1\<close> can produce. The second part is the
  loop invariant: from every state of the deep-processing loop whose queue holds numbers
  above \<open>1\<close>, the product of the returned list is \<open>product(factors) * product(queue)\<close>.
\<close>

theorem factorizeAsync_reconstruction:
  assumes "eng = engine_003 A1 \<or> eng = engine_002 A1" and "1 \<le> n"
  shows "((\<exists>fs. factorizeAsync eng rounds n = Some (Inr fs) \<and> prod_list fs = n) \<or>
          (eng = engine_003 A1 \<and> concat A1 = [] \<and>
           factorizeAsync eng rounds n = Some (Inl TypeError))) \<and>
    (\<forall>k factors queue fs.
       (\<forall>q\<in>set queue. 2 \<le> q) \<and> deep_loop eng rounds k factors queue = Some (Inr fs) \<longrightarrow>
       prod_list fs = prod_list factors * prod_list queue)"
proof
  show "(\<exists>fs. factorizeAsync eng rounds n = Some (Inr fs) \<and> prod_list fs = n) \<or>
      (eng = engine_003 A1 \<and> concat A1 = [] \<and>
       factorizeAsync eng rounds n = Some (Inl TypeError))"
  proof (cases "n = 1")
    case True
    then show ?thesis by (simp add: factorizeAsync_def)
  next
    case False
    with assms(2) have n: "2 \<le> n" by simp
    from factorizeAsync_spec[OF engines_spec(1,2)[OF assms(1)] n, of rounds] obtain r where
      r: "factorizeAsync eng rounds n = Some r" "lanes_launch eng \<longrightarrow> (\<exists>fs. r = Inr fs)"
         "\<forall>fs. r = Inr fs \<longrightarrow> prod_list fs = n"
      by blast
    show ?thesis
    proof (cases r)
      case (Inr fs)
      with r show ?thesis by simp
    next
      case (Inl e)
      with r(2) have "\<not> lanes_launch eng" by auto
      with engines_spec(3)[OF assms(1)] assms(1) have "eng = engine_003 A1" "concat A1 = []"
        by auto
      moreover have "e = TypeError" by (cases e) simp
      ultimately show ?thesis using r(1) Inl by simp
    qed
  qed
  show "\<forall>k factors queue fs.
      (\<forall>q\<in>set queue. 2 \<le> q) \<and> deep_loop eng rounds k factors queue = Some (Inr fs) \<longrightarrow>
      prod_list fs = prod_list factors * prod_list queue"
  proof (intro allI impI)
    fix k factors queue fs
    assume h: "(\<forall>q\<in>set queue. 2 \<le> q) \<and> deep_loop eng rounds k factors queue = Some (Inr fs)"
    from deep_loop_spec[OF engines_spec(1)[OF assms(1)], of queue rounds k factors] h
    obtain new where "fs = factors @ new" "prod_list new = prod_list queue" by auto
    then show "prod_list fs = prod_list factors * prod_list queue" by simp
  qed
qed

theorem factorizeAsync_reconstruction_witness:
  "factorizeAsync (engine_003 sample_A1) sample_rounds 3596 = Some (Inr [2, 2, 29, 31]) \<and>
   prod_list [2, 2, 29, 31] = (3596 :: int)"
proof -
  have run: "factorizeAsync (engine_003 sample_A1) sample_rounds 3596 = Some (Inr [2, 2, 29, 31])"
    by code_simp
  have "concat sample_A1 \<noteq> []" by (simp add: sample_A1_def)
  with factorizeAsync_reconstruction[of "engine_003 sample_A1" sample_A1 3596 sample_rounds] run
  show ?thesis by simp
qed



text \<open>
  C6 (terminal cases). For \<open>n < 1\<close> the result is the empty list and for \<open>n = 1\<close> it is \<open>[1]\<close>,
  with any engine and any rounds: also with an engine whose sieve and lanes could not
  return, so neither is asked.
\<close>

theorem factorizeAsync_terminal_cases:
  "(n < 1 \<longrightarrow> factorizeAsync eng rounds n = Some (Inr [])) \<and>
   factorizeAsync eng rounds 1 = Some (Inr [1])"
  by (simp add: factorizeAsync_def)

text \<open>
  The sieve of \<open>stuck_engine\<close> never returns: with the divisor \<open>1\<close> the loop
  \<^verbatim>\<open>while (temp % p === 0n)\<close> goes on for ever.
\<close>

lemma strip_prime_one_aux:
  assumes "strip_prime p factors temp = Some y"
  shows "p \<noteq> 1"
proof (rule strip_prime.raw_induct[where P = "\<lambda>p factors temp y. p \<noteq> 1", OF _ assms], goal_cases)
  case step: (1 sp p factors temp y)
  show ?case
  proof
    assume "p = 1"
    with step(2) have "sp 1 (factors @ [1]) (bigint_div temp 1) = Some y"
      by (simp add: bigint_rem_def)
    from step(1)[OF this] show False by simp
  qed
qed

lemma stuck_engine_sieve: "2 \<le> n \<Longrightarrow> factorizeAsync stuck_engine rounds n = None"
proof -
  assume n: "2 \<le> n"
  have "strip_prime 1 [] n = None"
    using strip_prime_one_aux[of 1 "[]" n] by (cases "strip_prime 1 [] n") auto
  with n show ?thesis by (simp add: factorizeAsync_def stuck_engine_def)
qed

theorem factorizeAsync_terminal_cases_witness:
  "factorizeAsync stuck_engine late_rounds 0 = Some (Inr []) \<and>
   factorizeAsync stuck_engine late_rounds 1 = Some (Inr [1]) \<and>
   factorizeAsync stuck_engine late_rounds 2 = None"
  using factorizeAsync_terminal_cases[of 0 stuck_engine late_rounds]
    stuck_engine_sieve[of 2 late_rounds] by simp

text \<open>
  C8 (ordered output). Whatever \<open>factorizeAsync\<close> returns is sorted in ascending order,
  repetitions allowed.
\<close>

theorem factorizeAsync_sorted:
  assumes "factorizeAsync eng rounds n = Some (Inr fs)"
  shows "sorted fs"
proof (cases "n < 1 \<or> n = 1")
  case True
  with assms show ?thesis by (auto simp: factorizeAsync_def split: if_splits)
next
  case False
  with assms have "\<exists>r :: error + int list. map_sum id sort r = Inr fs"
    by (simp add: factorizeAsync_def bind_eq_Some_conv split_def del: sieve_queue.simps) blast
  then obtain r :: "error + int list" where "map_sum id sort r = Inr fs" ..
  then obtain fs' where "fs = sort fs'" by (cases r) auto
  then show ?thesis by simp
qed

theorem factorizeAsync_sorted_witness:
  "factorizeAsync (engine_002 sample_A1) sample_rounds 176300 = Some (Inr [2, 2, 5, 5, 41, 43]) \<and>
   sorted [2, 2, 5, 5, 41, 43 :: int]"
proof -
  have run: "factorizeAsync (engine_002 sample_A1) sample_rounds 176300
      = Some (Inr [2, 2, 5, 5, 41, 43])"
    by code_simp
  from factorizeAsync_sorted[OF run] run show ?thesis by simp
qed

text \<open>
  C10 (no unit factor). For every input \<open>n \<ge> 2\<close>, every entry of the list that either
  revision of \<open>factorizeAsync\<close> returns is at least \<open>2\<close>.
\<close>

theorem factorizeAsync_no_unit_factor:
  assumes "eng = engine_003 A1 \<or> eng = engine_002 A1" and "2 \<le> n"
    and "factorizeAsync eng rounds n = Some (Inr fs)"
  shows "\<forall>x\<in>set fs. 2 \<le> x"
  using factorizeAsync_spec[OF engines_spec(1,2)[OF assms(1)] assms(2), of rounds] assms(3)
  by auto

theorem factorizeAsync_no_unit_factor_witness:
  "factorizeAsync (engine_003 sample_A1) sample_rounds 1798 = Some (Inr [2, 29, 31]) \<and>
   list_all (\<lambda>x. 2 \<le> x) [2, 29, 31 :: int]"
proof -
  have run: "factorizeAsync (engine_003 sample_A1) sample_rounds 1798 = Some (Inr [2, 29, 31])"
    by code_simp
  from factorizeAsync_no_unit_factor[OF _ _ run, of sample_A1] run show ?thesis by simp
qed

end
